theory Spec2Isabelle
  imports Main
begin

section \<open>Bytes, build configuration and the destination buffer\<close>

text \<open>
  The two engines of \<^verbatim>\<open>kv_parse.c\<close> and \<^verbatim>\<open>kv_parse_buffer.c\<close> are embedded
  function by function. Bytes are \<^typ>\<open>char\<close>. The two compile-time switches
  (\<^verbatim>\<open>KV_PARSE_WHITESPACE_SKIP\<close> and \<^verbatim>\<open>KV_PARSE_QUOTED_STRINGS\<close>, in the later revision
  the absence of \<^verbatim>\<open>KV_PARSE_DISABLE_WHITESPACE_SKIP\<close> and
  \<^verbatim>\<open>KV_PARSE_DISABLE_QUOTED_STRINGS\<close>) are the two fields of a configuration record
  that every function takes; the bodies of both revisions are otherwise the same.
\<close>

record kv_config =
  whitespace_skip :: bool
  quoted_strings :: bool

abbreviation NUL :: char where "NUL \<equiv> CHR 0x00"
abbreviation TAB :: char where "TAB \<equiv> CHR 0x09"
abbreviation LF :: char where "LF \<equiv> CHR 0x0A"
abbreviation CR :: char where "CR \<equiv> CHR 0x0D"
abbreviation SPC :: char where "SPC \<equiv> CHR 0x20"
abbreviation DQUOTE :: char where "DQUOTE \<equiv> CHR 0x22"
abbreviation SQUOTE :: char where "SQUOTE \<equiv> CHR 0x27"
abbreviation BACKSLASH :: char where "BACKSLASH \<equiv> CHR 0x5C"

text \<open>
  The destination (\<^verbatim>\<open>char *value\<close>, \<^verbatim>\<open>char *section\<close>) is the list of the bytes
  the caller owns; its length is the real capacity. C leaves an access outside the
  array undefined: the model stops at the first such access with a \<open>Fault\<close> that
  names the index, so that every run that stays inside the array is modelled
  exactly and every run that leaves it is visible.
\<close>

datatype fault = BadRead int | BadWrite int

datatype 'a run = Fault fault | Done 'a

definition rd :: "string \<Rightarrow> int \<Rightarrow> char run" where
  "rd buf i = (if 0 \<le> i \<and> i < int (length buf) then Done (buf ! nat i) else Fault (BadRead i))"

definition wr :: "string \<Rightarrow> int \<Rightarrow> char \<Rightarrow> string run" where
  "wr buf i c = (if 0 \<le> i \<and> i < int (length buf) then Done (buf[nat i := c]) else Fault (BadWrite i))"

text \<open>
  \<^verbatim>\<open>value_max - 1\<close> is computed in \<^verbatim>\<open>size_t\<close> (64 bits here): at \<^verbatim>\<open>value_max = 0\<close>
  it wraps to \<^verbatim>\<open>SIZE_MAX\<close>. The counter \<^verbatim>\<open>int i\<close> is never negative where it is
  compared with that bound, and is a natural number in the model (lines are taken
  to be shorter than \<open>2^31\<close> bytes, so that it does not overflow); the one place
  where the source computes \<^verbatim>\<open>i - 1\<close> without knowing \<^verbatim>\<open>i > 0\<close> is written with an
  integer index.
\<close>

definition SIZE_MAX :: nat where
  "SIZE_MAX = 2 ^ 64 - 1"

definition size_dec :: "nat \<Rightarrow> nat" where
  "size_dec n = (if n = 0 then SIZE_MAX else n - 1)"

text \<open>
  The result of one of the two copy loops: a \<^verbatim>\<open>return\<close> inside the loop, with the
  returned length and the destination, or the loop condition \<^verbatim>\<open>i < max - 1\<close>
  failing, with the destination as the loop left it.
\<close>

datatype copy_exit = Returned nat string | Exhausted string

text \<open>
  The trimming loop
  \<^verbatim>\<open>while (i > 0 && (value[i - 1] == ' ' || value[i - 1] == '\t')) { i--; value[i] = '\0'; }\<close>
  shared by the end-of-line blocks of both engines.
\<close>

fun trim_trailing :: "nat \<Rightarrow> string \<Rightarrow> (nat \<times> string) run" where
  "trim_trailing 0 value = Done (0, value)"
| "trim_trailing (Suc i) value =
     (case rd value (int i) of
        Fault e \<Rightarrow> Fault e
      | Done c \<Rightarrow>
          if c = SPC \<or> c = TAB
          then (case wr value (int i) NUL of
                  Fault e \<Rightarrow> Fault e
                | Done value' \<Rightarrow> trim_trailing i value')
          else Done (Suc i, value))"

text \<open>
  The end-of-line block of \<^verbatim>\<open>get_value\<close>, without the stream's repositioning:
  terminate at \<open>i\<close>, trim when whitespace skipping is compiled in, return \<open>i\<close>.
\<close>

definition end_of_value :: "kv_config \<Rightarrow> nat \<Rightarrow> string \<Rightarrow> copy_exit run" where
  "end_of_value cfg i value =
     (case wr value (int i) NUL of
        Fault e \<Rightarrow> Fault e
      | Done value' \<Rightarrow>
          if whitespace_skip cfg
          then (case trim_trailing i value' of
                  Fault e \<Rightarrow> Fault e
                | Done (j, value'') \<Rightarrow> Done (Returned j value''))
          else Done (Returned i value'))"

text \<open>
  The end-of-line block of \<^verbatim>\<open>check_section\<close>: terminate, trim (always), then
  test \<^verbatim>\<open>section[i - 1] != ']'\<close>. The source does not test \<^verbatim>\<open>i > 0\<close> before that
  read, so the index is \<open>int i - 1\<close>.
\<close>

definition end_of_section :: "nat \<Rightarrow> string \<Rightarrow> copy_exit run" where
  "end_of_section i section =
     (case wr section (int i) NUL of
        Fault e \<Rightarrow> Fault e
      | Done s1 \<Rightarrow>
          (case trim_trailing i s1 of
             Fault e \<Rightarrow> Fault e
           | Done (j, s2) \<Rightarrow>
               (case rd s2 (int j - 1) of
                  Fault e \<Rightarrow> Fault e
                | Done c \<Rightarrow>
                    if c \<noteq> CHR '']''
                    then (case wr s2 0 NUL of
                            Fault e \<Rightarrow> Fault e
                          | Done s3 \<Rightarrow> Done (Returned 0 s3))
                    else (case wr s2 (int j - 1) NUL of
                            Fault e \<Rightarrow> Fault e
                          | Done s3 \<Rightarrow> Done (Returned (j - 1) s3)))))"

text \<open>
  The code after either copy loop: \<^verbatim>\<open>value[0] = '\0'; return 0;\<close>.
\<close>

definition too_large :: "string \<Rightarrow> (nat \<times> string) run" where
  "too_large value =
     (case wr value 0 NUL of Fault e \<Rightarrow> Fault e | Done value' \<Rightarrow> Done (0, value'))"

section \<open>The buffer engine\<close>

text \<open>
  A \<^verbatim>\<open>char *\<close> into the null-terminated input is the list of the bytes from the
  pointer up to the terminator; reading through it at the end of the list reads the
  terminator, and \<^verbatim>\<open>str++\<close> is the tail. A returned \<^verbatim>\<open>NULL\<close> is \<open>None\<close>.
\<close>

fun deref :: "string \<Rightarrow> char" where
  "deref [] = NUL"
| "deref (c # _) = c"

text \<open>The loop of \<^verbatim>\<open>kv_parse_buffer_next_line\<close>: read a byte, advance, test it.\<close>

fun scan_next_line :: "string \<Rightarrow> string option" where
  "scan_next_line [] = None"
| "scan_next_line (ch # str) =
     (if ch \<noteq> NUL
      then (if ch = LF
            then (if deref str = NUL then None else Some str)
            else scan_next_line str)
      else None)"

definition kv_parse_buffer_next_line :: "string \<Rightarrow> nat \<Rightarrow> string option" where
  "kv_parse_buffer_next_line str line_count =
     (if line_count = 0 then Some str else scan_next_line str)"

text \<open>\<^verbatim>\<open>while (*str == ' ' || *str == '\t') str++;\<close>\<close>

fun skip_blanks :: "string \<Rightarrow> string" where
  "skip_blanks [] = []"
| "skip_blanks (c # str) = (if c = SPC \<or> c = TAB then skip_blanks str else c # str)"

text \<open>
  The key loop \<^verbatim>\<open>for (i = 0; *str != '\0' && key[i] != '\0'; i++, str++)\<close>; the
  second argument is the key from \<^verbatim>\<open>key[i]\<close> on. \<open>None\<close> is the \<^verbatim>\<open>return NULL\<close> in
  its body, \<open>Some str\<close> the pointer at which the loop ends.
\<close>

fun match_key :: "string \<Rightarrow> string \<Rightarrow> string option" where
  "match_key str [] = Some str"
| "match_key str (k # key) =
     (if deref str \<noteq> NUL \<and> k \<noteq> NUL
      then (if deref str \<noteq> k then None else match_key (tl str) key)
      else Some str)"

definition kv_parse_buffer_check_key :: "kv_config \<Rightarrow> string \<Rightarrow> string \<Rightarrow> string option" where
  "kv_parse_buffer_check_key cfg str key =
     (case match_key (if whitespace_skip cfg then skip_blanks str else str) key of
        None \<Rightarrow> None
      | Some str1 \<Rightarrow>
          (let str2 = (if whitespace_skip cfg then skip_blanks str1 else str1)
           in if deref str2 \<noteq> CHR ''='' \<and> deref str2 \<noteq> CHR '':'' then None
              else Some (tl str2)))"

text \<open>
  The copy loop of \<^verbatim>\<open>kv_parse_buffer_get_value\<close>,
  \<^verbatim>\<open>for (int i = 0; i < (value_max - 1); str++)\<close>, with the bound \<open>lim\<close>, the
  locals \<open>quote\<close>, \<open>prev\<close> and \<open>i\<close>, the pointer and the destination. The two
  \<^verbatim>\<open>int\<close> locals only ever hold bytes of the input or their initial \<^verbatim>\<open>'\0'\<close>.
\<close>

fun copy_value ::
  "kv_config \<Rightarrow> nat \<Rightarrow> char \<Rightarrow> char \<Rightarrow> nat \<Rightarrow> string \<Rightarrow> string \<Rightarrow> copy_exit run" where
  "copy_value cfg lim quote prev i [] value =
     (if i < lim then end_of_value cfg i value else Done (Exhausted value))"
| "copy_value cfg lim quote prev i (c # str) value =
     (if i < lim
      then (if c = NUL \<or> c = CR \<or> c = LF then end_of_value cfg i value
            else if quoted_strings cfg \<and> quote = NUL \<and> (c = SQUOTE \<or> c = DQUOTE)
            then copy_value cfg lim c prev i str value
            else if quoted_strings cfg \<and> quote \<noteq> NUL \<and> prev \<noteq> BACKSLASH \<and> c = quote
            then (case wr value (int i) NUL of
                    Fault e \<Rightarrow> Fault e
                  | Done value' \<Rightarrow> Done (Returned i value'))
            else if quoted_strings cfg \<and> quote \<noteq> NUL \<and> prev = BACKSLASH \<and> c = quote
            then (case wr value (int i - 1) c of
                    Fault e \<Rightarrow> Fault e
                  | Done value' \<Rightarrow> copy_value cfg lim quote prev i str value')
            else (case wr value (int i) c of
                    Fault e \<Rightarrow> Fault e
                  | Done value' \<Rightarrow>
                      copy_value cfg lim quote (if quoted_strings cfg then c else prev)
                        (Suc i) str value'))
      else Done (Exhausted value))"

text \<open>
  \<^verbatim>\<open>kv_parse_buffer_get_value\<close> up to the end of its copy loop, and as a whole: a
  \<^verbatim>\<open>return\<close> of the loop is the result, and when the loop runs out of capacity the
  code after it gives the failure result.
\<close>

definition buffer_value_scan :: "kv_config \<Rightarrow> string \<Rightarrow> string \<Rightarrow> nat \<Rightarrow> copy_exit run" where
  "buffer_value_scan cfg str value value_max =
     copy_value cfg (size_dec value_max) NUL NUL 0
       (if whitespace_skip cfg then skip_blanks str else str) value"

definition kv_parse_buffer_get_value ::
  "kv_config \<Rightarrow> string \<Rightarrow> string \<Rightarrow> nat \<Rightarrow> (nat \<times> string) run" where
  "kv_parse_buffer_get_value cfg str value value_max =
     (case buffer_value_scan cfg str value value_max of
        Fault e \<Rightarrow> Fault e
      | Done (Returned n value') \<Rightarrow> Done (n, value')
      | Done (Exhausted value') \<Rightarrow> too_large value')"

text \<open>The copy loop of \<^verbatim>\<open>kv_parse_buffer_check_section\<close>.\<close>

fun copy_section :: "nat \<Rightarrow> nat \<Rightarrow> string \<Rightarrow> string \<Rightarrow> copy_exit run" where
  "copy_section lim i [] section =
     (if i < lim then end_of_section i section else Done (Exhausted section))"
| "copy_section lim i (c # str) section =
     (if i < lim
      then (if c = NUL \<or> c = CR \<or> c = LF then end_of_section i section
            else (case wr section (int i) c of
                    Fault e \<Rightarrow> Fault e
                  | Done section' \<Rightarrow> copy_section lim (Suc i) str section'))
      else Done (Exhausted section))"

definition kv_parse_buffer_check_section :: "string \<Rightarrow> string \<Rightarrow> nat \<Rightarrow> (nat \<times> string) run" where
  "kv_parse_buffer_check_section str section section_max =
     (if deref str \<noteq> CHR ''[''
      then Done (0, section)
      else (case copy_section (size_dec section_max) 0 (tl str) section of
              Fault e \<Rightarrow> Fault e
            | Done (Returned n section') \<Rightarrow> Done (n, section')
            | Done (Exhausted section') \<Rightarrow> too_large section'))"

section \<open>The stream engine\<close>

text \<open>
  A \<^verbatim>\<open>FILE *\<close> opened for reading is the bytes of the file, the offset of the next
  byte to read and the byte pushed back by \<^verbatim>\<open>ungetc\<close>, if any. \<^verbatim>\<open>getc\<close> returns
  the pushed-back byte first; \<^verbatim>\<open>ftell\<close> counts a pushed-back byte as unread;
  \<^verbatim>\<open>fseek(file, off, SEEK_SET)\<close> drops it, and fails (changing nothing) on a negative
  offset. The source ignores the results of \<^verbatim>\<open>fseek\<close> and \<^verbatim>\<open>ungetc\<close>.
\<close>

record FILE =
  content :: string
  offset :: nat
  pushed :: "char option"

definition getc :: "FILE \<Rightarrow> char option \<times> FILE" where
  "getc f =
     (case pushed f of
        Some c \<Rightarrow> (Some c, f\<lparr>pushed := None\<rparr>)
      | None \<Rightarrow>
          if offset f < length (content f)
          then (Some (content f ! offset f), f\<lparr>offset := Suc (offset f)\<rparr>)
          else (None, f))"

definition ungetc :: "char \<Rightarrow> FILE \<Rightarrow> FILE" where
  "ungetc c f = f\<lparr>pushed := Some c\<rparr>"

definition ftell :: "FILE \<Rightarrow> int" where
  "ftell f = int (offset f) - (if pushed f = None then 0 else 1)"

definition fseek :: "FILE \<Rightarrow> int \<Rightarrow> FILE" where
  "fseek f off = (if off < 0 then f else f\<lparr>offset := nat off, pushed := None\<rparr>)"

text \<open>
  \<^verbatim>\<open>kv_parse_next_line\<close>, \<^verbatim>\<open>kv_parse_check_key\<close> and \<^verbatim>\<open>kv_parse_get_value\<close> store the
  result of \<^verbatim>\<open>getc\<close> in a \<^verbatim>\<open>char\<close> and compare that with \<^verbatim>\<open>EOF\<close>. With the signed
  \<^verbatim>\<open>char\<close> of the platforms on which the repository's tests end (with an unsigned
  one \<^verbatim>\<open>ch != EOF\<close> is always true), \<^verbatim>\<open>(char) EOF\<close> is the byte \<open>0xFF\<close>, and
  \<^verbatim>\<open>ch == EOF\<close> holds exactly for that byte, read from the file or not. The
  \<^verbatim>\<open>int\<close> locals \<^verbatim>\<open>quote\<close> and \<^verbatim>\<open>prev\<close> hold \<^verbatim>\<open>EOF\<close> or such a \<^verbatim>\<open>char\<close>, hence a byte
  under the same reading. \<^verbatim>\<open>kv_parse_check_section\<close> declares \<^verbatim>\<open>int ch\<close> and uses
  \<open>getc\<close> as it is.
\<close>

abbreviation EOF_char :: char where "EOF_char \<equiv> CHR 0xFF"

definition getc_char :: "FILE \<Rightarrow> char \<times> FILE" where
  "getc_char f = (case getc f of (None, f') \<Rightarrow> (EOF_char, f') | (Some c, f') \<Rightarrow> (c, f'))"

definition unread :: "FILE \<Rightarrow> nat" where
  "unread f = (length (content f) - offset f) + (case pushed f of None \<Rightarrow> 0 | Some _ \<Rightarrow> 1)"

lemma getc_unread:
  "getc f = (r, f') \<Longrightarrow>
     (unread f = 0 \<and> r = None \<and> f' = f) \<or> (r \<noteq> None \<and> Suc (unread f') = unread f)"
  by (auto simp: getc_def unread_def split: option.splits if_splits)

lemma getc_char_unread:
  "getc_char f = (ch, f') \<Longrightarrow>
     (unread f = 0 \<and> ch = EOF_char \<and> f' = f) \<or> Suc (unread f') = unread f"
  by (auto simp: getc_char_def split: prod.splits option.splits dest: getc_unread)

lemma fscan_next_line_measure:
  assumes "(x, y) = getc_char f" and "ch \<noteq> EOF_char"
  shows "((x, y), (ch, f)) \<in> measure (\<lambda>(ch, f). unread f + (if ch = EOF_char then 0 else 1))"
proof -
  have "getc_char f = (x, y)" using assms(1) by simp
  from getc_char_unread [OF this] assms(2) show ?thesis by auto
qed

lemma fskip_blanks_measure:
  assumes "(x, y) = getc_char f" and "ch = SPC \<or> ch = TAB"
  shows "((x, y), (ch, f))
           \<in> measure (\<lambda>(ch, f). unread f + (if ch = SPC \<or> ch = TAB then 1 else 0))"
proof -
  have "getc_char f = (x, y)" using assms(1) by simp
  from getc_char_unread [OF this] assms(2) show ?thesis by auto
qed

lemma fcopy_value_measure:
  assumes "(x, y) = getc_char f" and "ch \<noteq> EOF_char"
  shows "((cfg', lim', start', quote', prev', i', x, y, value'),
          (cfg, lim, start, quote, prev, i, ch, f, value))
           \<in> measure (\<lambda>(cfg, lim, start, quote, prev, i, ch, f, value).
                      unread f + (if ch = EOF_char then 0 else 1))"
proof -
  have "getc_char f = (x, y)" using assms(1) by simp
  from getc_char_unread [OF this] assms(2) show ?thesis by auto
qed

lemma fcopy_section_measure:
  assumes "(x, y) = getc f" and "ch \<noteq> None"
  shows "((lim', start', i', x, y, section'), (lim, start, i, ch, f, section))
           \<in> measure (\<lambda>(lim, start, i, ch, f, section).
                      unread f + (if ch = None then 0 else 1))"
proof -
  have "getc f = (x, y)" using assms(1) by simp
  from getc_unread [OF this] assms(2) show ?thesis by auto
qed

text \<open>The loop \<^verbatim>\<open>while (ch != EOF) { ... ch = getc(file); }\<close> of \<^verbatim>\<open>kv_parse_next_line\<close>.\<close>

function fscan_next_line :: "char \<Rightarrow> FILE \<Rightarrow> bool \<times> FILE" where
  "fscan_next_line ch f =
     (if ch \<noteq> EOF_char
      then (if ch = LF
            then (case getc_char f of
                    (ch', f') \<Rightarrow> if ch' = EOF_char then (False, f') else (True, ungetc ch' f'))
            else (case getc_char f of (ch', f') \<Rightarrow> fscan_next_line ch' f'))
      else (False, f))"
  by pat_completeness auto
termination
  apply (relation "measure (\<lambda>(ch, f). unread f + (if ch = EOF_char then 0 else 1))")
   apply simp
  apply (erule fscan_next_line_measure, simp?)+
  done

definition kv_parse_next_line :: "FILE \<Rightarrow> nat \<Rightarrow> bool \<times> FILE" where
  "kv_parse_next_line f line_count =
     (if line_count = 0 then (True, f)
      else (case getc_char f of (ch, f') \<Rightarrow> fscan_next_line ch f'))"

text \<open>\<^verbatim>\<open>while (ch == ' ' || ch == '\t') { ch = getc(file); }\<close>\<close>

function fskip_blanks :: "char \<Rightarrow> FILE \<Rightarrow> char \<times> FILE" where
  "fskip_blanks ch f =
     (if ch = SPC \<or> ch = TAB
      then (case getc_char f of (ch', f') \<Rightarrow> fskip_blanks ch' f')
      else (ch, f))"
  by pat_completeness auto
termination
  apply (relation "measure (\<lambda>(ch, f). unread f + (if ch = SPC \<or> ch = TAB then 1 else 0))")
   apply simp
  apply (erule fskip_blanks_measure, simp?)+
  done

text \<open>
  The key loop \<^verbatim>\<open>for (int i = 0; ch != EOF && key[i] != '\0'; i++, ch = getc(file))\<close>:
  it leaves through the \<^verbatim>\<open>return false\<close> of its body or through its condition.
\<close>

datatype key_exit = Mismatch FILE | Compared char FILE

fun fmatch_key :: "char \<Rightarrow> FILE \<Rightarrow> string \<Rightarrow> key_exit" where
  "fmatch_key ch f [] = Compared ch f"
| "fmatch_key ch f (k # key) =
     (if ch \<noteq> EOF_char \<and> k \<noteq> NUL
      then (if ch \<noteq> k then Mismatch f
            else (case getc_char f of (ch', f') \<Rightarrow> fmatch_key ch' f' key))
      else Compared ch f)"

definition kv_parse_check_key :: "kv_config \<Rightarrow> FILE \<Rightarrow> string \<Rightarrow> bool \<times> FILE" where
  "kv_parse_check_key cfg f key =
     (let start_of_line = ftell f;
          (ch, f1) = getc_char f;
          (ch1, f2) = (if whitespace_skip cfg then fskip_blanks ch f1 else (ch, f1))
      in case fmatch_key ch1 f2 key of
           Mismatch f3 \<Rightarrow> (False, fseek f3 start_of_line)
         | Compared ch2 f3 \<Rightarrow>
             (let (ch3, f4) = (if whitespace_skip cfg then fskip_blanks ch2 f3 else (ch2, f3))
              in if ch3 \<noteq> CHR ''='' \<and> ch3 \<noteq> CHR '':'' then (False, fseek f4 start_of_line)
                 else (True, f4)))"

text \<open>
  The copy loop of \<^verbatim>\<open>kv_parse_get_value\<close>,
  \<^verbatim>\<open>for (int i = 0; i < (value_max - 1); ch = getc(file))\<close>; a \<^verbatim>\<open>continue\<close> runs the
  \<^verbatim>\<open>getc\<close> of the loop header.
\<close>

function fcopy_value ::
  "kv_config \<Rightarrow> nat \<Rightarrow> int \<Rightarrow> char \<Rightarrow> char \<Rightarrow> nat \<Rightarrow> char \<Rightarrow> FILE \<Rightarrow> string
     \<Rightarrow> (copy_exit \<times> FILE) run" where
  "fcopy_value cfg lim start_of_value quote prev i ch f value =
     (if i < lim
      then (if ch = EOF_char \<or> ch = CR \<or> ch = LF
            then (case end_of_value cfg i value of
                    Fault e \<Rightarrow> Fault e
                  | Done x \<Rightarrow>
                      Done (x, if ch = LF then ungetc LF (fseek f start_of_value)
                               else fseek f start_of_value))
            else if quoted_strings cfg \<and> quote = EOF_char \<and> (ch = SQUOTE \<or> ch = DQUOTE)
            then (case getc_char f of
                    (ch', f') \<Rightarrow> fcopy_value cfg lim start_of_value ch prev i ch' f' value)
            else if quoted_strings cfg \<and> quote \<noteq> EOF_char \<and> prev \<noteq> BACKSLASH \<and> ch = quote
            then (case wr value (int i) NUL of
                    Fault e \<Rightarrow> Fault e
                  | Done value' \<Rightarrow> Done (Returned i value', fseek f start_of_value))
            else if quoted_strings cfg \<and> quote \<noteq> EOF_char \<and> prev = BACKSLASH \<and> ch = quote
            then (case wr value (int i - 1) ch of
                    Fault e \<Rightarrow> Fault e
                  | Done value' \<Rightarrow>
                      (case getc_char f of
                         (ch', f') \<Rightarrow>
                           fcopy_value cfg lim start_of_value quote prev i ch' f' value'))
            else (case wr value (int i) ch of
                    Fault e \<Rightarrow> Fault e
                  | Done value' \<Rightarrow>
                      (case getc_char f of
                         (ch', f') \<Rightarrow>
                           fcopy_value cfg lim start_of_value quote
                             (if quoted_strings cfg then ch else prev) (Suc i) ch' f' value')))
      else Done (Exhausted value, f))"
  by pat_completeness auto
termination
  apply (relation "measure (\<lambda>(cfg, lim, start, quote, prev, i, ch, f, value).
                  unread f + (if ch = EOF_char then 0 else 1))")
   apply simp
  apply (erule fcopy_value_measure, simp?)+
  done

text \<open>\<^verbatim>\<open>kv_parse_get_value\<close> up to the end of its copy loop, and as a whole.\<close>

definition stream_value_scan ::
  "kv_config \<Rightarrow> FILE \<Rightarrow> string \<Rightarrow> nat \<Rightarrow> (copy_exit \<times> FILE) run" where
  "stream_value_scan cfg f value value_max =
     (let start_of_value = ftell f;
          (ch, f1) = getc_char f;
          (ch1, f2) = (if whitespace_skip cfg then fskip_blanks ch f1 else (ch, f1))
      in fcopy_value cfg (size_dec value_max) start_of_value EOF_char EOF_char 0 ch1 f2 value)"

definition kv_parse_get_value ::
  "kv_config \<Rightarrow> FILE \<Rightarrow> string \<Rightarrow> nat \<Rightarrow> ((nat \<times> string) \<times> FILE) run" where
  "kv_parse_get_value cfg f value value_max =
     (case stream_value_scan cfg f value value_max of
        Fault e \<Rightarrow> Fault e
      | Done (Returned n value', f3) \<Rightarrow> Done ((n, value'), f3)
      | Done (Exhausted value', f3) \<Rightarrow>
          (case too_large value' of
             Fault e \<Rightarrow> Fault e
           | Done r \<Rightarrow> Done (r, fseek f3 (ftell f))))"

text \<open>
  The copy loop of \<^verbatim>\<open>kv_parse_check_section\<close>, whose \<^verbatim>\<open>int ch\<close> is \<open>None\<close> at the
  end of the file. Its end-of-line block seeks to the start of the line before it
  touches the destination, and once more when the closing bracket is missing; the
  second \<^verbatim>\<open>fseek\<close> to the same offset changes nothing.
\<close>

function fcopy_section ::
  "nat \<Rightarrow> int \<Rightarrow> nat \<Rightarrow> char option \<Rightarrow> FILE \<Rightarrow> string \<Rightarrow> (copy_exit \<times> FILE) run" where
  "fcopy_section lim start_of_line i ch f section =
     (if i < lim
      then (case ch of
              None \<Rightarrow>
                (case end_of_section i section of
                   Fault e \<Rightarrow> Fault e
                 | Done x \<Rightarrow> Done (x, fseek f start_of_line))
            | Some c \<Rightarrow>
                if c = CR \<or> c = LF
                then (case end_of_section i section of
                        Fault e \<Rightarrow> Fault e
                      | Done x \<Rightarrow> Done (x, fseek f start_of_line))
                else (case wr section (int i) c of
                        Fault e \<Rightarrow> Fault e
                      | Done section' \<Rightarrow>
                          (case getc f of
                             (ch', f') \<Rightarrow>
                               fcopy_section lim start_of_line (Suc i) ch' f' section')))
      else Done (Exhausted section, f))"
  by pat_completeness auto
termination
  apply (relation "measure (\<lambda>(lim, start, i, ch, f, section).
                  unread f + (if ch = None then 0 else 1))")
   apply simp
  apply (erule fcopy_section_measure, simp?)+
  done

definition kv_parse_check_section ::
  "FILE \<Rightarrow> string \<Rightarrow> nat \<Rightarrow> ((nat \<times> string) \<times> FILE) run" where
  "kv_parse_check_section f section section_max =
     (let start_of_line = ftell f;
          (ch, f1) = getc f
      in if ch \<noteq> Some (CHR ''['') then Done ((0, section), fseek f1 start_of_line)
         else (case getc f1 of
                 (ch1, f2) \<Rightarrow>
                   (case fcopy_section (size_dec section_max) start_of_line 0 ch1 f2 section of
                      Fault e \<Rightarrow> Fault e
                    | Done (Returned n section', f3) \<Rightarrow> Done ((n, section'), f3)
                    | Done (Exhausted section', f3) \<Rightarrow>
                        (case too_large section' of
                           Fault e \<Rightarrow> Fault e
                         | Done r \<Rightarrow> Done (r, fseek f3 start_of_line)))))"

section \<open>The caller's loops\<close>

text \<open>
  \<^verbatim>\<open>kv_parse_buffer\<close> of \<^verbatim>\<open>test.c\<close> (the usage example of the header and the README):
  \<^verbatim>\<open>for (size_t line = 0; (input = kv_parse_buffer_next_line(input, line)) != NULL; line++)\<close>
  with a \<^verbatim>\<open>return kv_parse_buffer_get_value(...)\<close> at the first line whose key matches,
  and \<^verbatim>\<open>return 0\<close> after the loop.
\<close>

lemma scan_next_line_shorter: "scan_next_line str = Some s \<Longrightarrow> length s < length str"
  by (induction str) (auto split: if_splits)

lemma kv_parse_buffer_next_line_measure:
  assumes "kv_parse_buffer_next_line input line = Some x"
  shows "((cfg', Suc line, x, key', value', value_max'), (cfg, line, input, key, value, value_max))
           \<in> measure (\<lambda>(cfg, line, input, key, value, value_max).
                      2 * length input + (if line = 0 then 1 else 0))"
  using assms
  by (auto simp: kv_parse_buffer_next_line_def split: if_splits dest: scan_next_line_shorter)

function kv_parse_buffer_from ::
  "kv_config \<Rightarrow> nat \<Rightarrow> string \<Rightarrow> string \<Rightarrow> string \<Rightarrow> nat \<Rightarrow> (nat \<times> string) run" where
  "kv_parse_buffer_from cfg line input key value value_max =
     (case kv_parse_buffer_next_line input line of
        None \<Rightarrow> Done (0, value)
      | Some input' \<Rightarrow>
          (case kv_parse_buffer_check_key cfg input' key of
             Some input_value \<Rightarrow> kv_parse_buffer_get_value cfg input_value value value_max
           | None \<Rightarrow> kv_parse_buffer_from cfg (Suc line) input' key value value_max))"
  by pat_completeness auto
termination
  apply (relation "measure (\<lambda>(cfg, line, input, key, value, value_max).
                     2 * length input + (if line = 0 then 1 else 0))")
   apply simp
  apply (erule kv_parse_buffer_next_line_measure)
  done

definition kv_parse_buffer ::
  "kv_config \<Rightarrow> string \<Rightarrow> string \<Rightarrow> string \<Rightarrow> nat \<Rightarrow> (nat \<times> string) run" where
  "kv_parse_buffer cfg input key value value_max =
     kv_parse_buffer_from cfg 0 input key value value_max"

declare fscan_next_line.simps [simp del]
declare fskip_blanks.simps [simp del]
declare fcopy_value.simps [simp del]
declare fcopy_section.simps [simp del]
declare kv_parse_buffer_from.simps [simp del]

text \<open>
  \<^verbatim>\<open>kv_parse\<close> of \<^verbatim>\<open>test.c\<close>, the same loop over the stream engine:
  \<^verbatim>\<open>rewind(file); for (size_t line = 0; kv_parse_next_line(file, line); line++)\<close>
  with a \<^verbatim>\<open>return kv_parse_get_value(...)\<close> at the first line on which
  \<^verbatim>\<open>kv_parse_check_key\<close> succeeds, and \<^verbatim>\<open>return 0\<close> after the loop. \<^verbatim>\<open>rewind\<close> sets the
  offset to 0 and drops a pushed-back byte. The loop ends because \<^verbatim>\<open>kv_parse_next_line\<close>
  consumes at least one byte after the first line and \<^verbatim>\<open>kv_parse_check_key\<close> never
  leaves more bytes unread than it found.
\<close>

definition rewind :: "FILE \<Rightarrow> FILE" where
  "rewind f = f\<lparr>offset := 0, pushed := None\<rparr>"

lemma getc_char_after:
  assumes "getc_char f = (ch, f')"
  shows "content f' = content f" and "pushed f' = None" and "unread f' \<le> unread f"
  using assms
  by (auto simp: getc_char_def getc_def unread_def split: option.splits if_splits prod.splits)

lemma fskip_blanks_after:
  "fskip_blanks ch f = (ch', f') \<Longrightarrow> content f' = content f \<and> unread f' \<le> unread f"
proof (induction ch f rule: fskip_blanks.induct)
  case (1 ch f)
  show ?case
  proof (cases "ch = SPC \<or> ch = TAB")
    case False
    with "1.prems" show ?thesis by (simp add: fskip_blanks.simps [of ch f])
  next
    case True
    obtain c1 f1 where g: "getc_char f = (c1, f1)" by (cases "getc_char f")
    from "1.prems" True g have "fskip_blanks c1 f1 = (ch', f')"
      by (simp add: fskip_blanks.simps [of ch f])
    from "1.IH" [OF True g [symmetric] this] getc_char_after [OF g] show ?thesis by simp
  qed
qed

lemma fmatch_key_after:
  "fmatch_key ch f key = r \<Longrightarrow>
     (case r of Mismatch f' \<Rightarrow> content f' = content f \<and> unread f' \<le> unread f
              | Compared c f' \<Rightarrow> content f' = content f \<and> unread f' \<le> unread f)"
proof (induction key arbitrary: ch f)
  case Nil
  then show ?case by auto
next
  case (Cons k key)
  obtain c1 f1 where g: "getc_char f = (c1, f1)" by (cases "getc_char f")
  show ?case
  proof (cases "ch \<noteq> EOF_char \<and> k \<noteq> NUL \<and> ch = k")
    case False
    with Cons.prems show ?thesis by auto
  next
    case True
    then have "ch \<noteq> EOF_char" "k \<noteq> NUL" "ch = k" by auto
    with Cons.prems g have "fmatch_key c1 f1 key = r" by simp
    from Cons.IH [OF this] getc_char_after [OF g] show ?thesis
      by (auto split: key_exit.splits)
  qed
qed

lemma unread_fseek:
  assumes "content g = content f" and "unread g \<le> unread f"
  shows "unread (fseek g (ftell f)) \<le> unread f"
  using assms by (auto simp: fseek_def ftell_def unread_def split: option.splits)

lemma check_key_unread:
  assumes "kv_parse_check_key cfg f key = (b, f')"
  shows "unread f' \<le> unread f"
proof -
  obtain c0 f0 where g: "getc_char f = (c0, f0)" by (cases "getc_char f")
  obtain c1 f1 where sk1: "(if whitespace_skip cfg then fskip_blanks c0 f0 else (c0, f0)) = (c1, f1)"
    by (cases "if whitespace_skip cfg then fskip_blanks c0 f0 else (c0, f0)")
  have a1: "content f1 = content f \<and> unread f1 \<le> unread f"
    using sk1 getc_char_after [OF g] fskip_blanks_after [of c0 f0 c1 f1]
    by (auto split: if_splits)
  show ?thesis
  proof (cases "fmatch_key c1 f1 key")
    case (Mismatch f3)
    with fmatch_key_after [OF Mismatch] a1
    have "content f3 = content f" "unread f3 \<le> unread f" by auto
    from unread_fseek [OF this] assms g sk1 Mismatch show ?thesis
      by (auto simp: kv_parse_check_key_def)
  next
    case (Compared c2 f3)
    obtain c3 f4 where sk2: "(if whitespace_skip cfg then fskip_blanks c2 f3 else (c2, f3)) = (c3, f4)"
      by (cases "if whitespace_skip cfg then fskip_blanks c2 f3 else (c2, f3)")
    from fmatch_key_after [OF Compared] a1
    have "content f3 = content f" "unread f3 \<le> unread f" by auto
    with sk2 fskip_blanks_after [of c2 f3 c3 f4]
    have a4: "content f4 = content f" "unread f4 \<le> unread f" by (auto split: if_splits)
    from unread_fseek [OF a4] a4 assms g sk1 sk2 Compared show ?thesis
      by (auto simp: kv_parse_check_key_def split: if_splits)
  qed
qed

lemma fscan_next_line_unread:
  "fscan_next_line ch f = (True, f') \<Longrightarrow> unread f' \<le> unread f"
proof (induction ch f rule: fscan_next_line.induct)
  case (1 ch f)
  obtain c1 f1 where g: "getc_char f = (c1, f1)" by (cases "getc_char f")
  from "1.prems" have ne: "ch \<noteq> EOF_char" by (auto simp: fscan_next_line.simps [of ch f])
  have unf: "fscan_next_line ch f =
               (if ch = LF then (if c1 = EOF_char then (False, f1) else (True, ungetc c1 f1))
                else fscan_next_line c1 f1)"
    using ne g by (subst fscan_next_line.simps) simp
  show ?case
  proof (cases "ch = LF")
    case True
    with "1.prems" unf have "c1 \<noteq> EOF_char" and f': "f' = ungetc c1 f1"
      by (auto split: if_splits)
    with getc_char_unread [OF g] getc_char_after(2) [OF g] show ?thesis
      by (auto simp: ungetc_def unread_def)
  next
    case False
    with "1.prems" unf have "fscan_next_line c1 f1 = (True, f')" by simp
    from "1.IH" [OF ne False g [symmetric] this] getc_char_after(3) [OF g] show ?thesis
      by simp
  qed
qed

lemma next_line_unread:
  assumes "kv_parse_next_line f line = (True, f')"
  shows "2 * unread f' + (if Suc line = 0 then 1 else 0) < 2 * unread f + (if line = 0 then 1 else 0)"
proof (cases "line = 0")
  case True
  with assms show ?thesis by (simp add: kv_parse_next_line_def)
next
  case False
  obtain c f1 where g: "getc_char f = (c, f1)" by (cases "getc_char f")
  with assms False have s: "fscan_next_line c f1 = (True, f')"
    by (simp add: kv_parse_next_line_def)
  then have "c \<noteq> EOF_char" by (auto simp: fscan_next_line.simps [of c f1])
  with getc_char_unread [OF g] have "Suc (unread f1) = unread f" by auto
  with fscan_next_line_unread [OF s] False show ?thesis by simp
qed

lemma kv_parse_from_measure:
  assumes "(has_line, f1) = kv_parse_next_line f line" and "has_line"
    and "(found, f2) = kv_parse_check_key cfg f1 key"
  shows "((cfg', Suc line, f2, key', value', value_max'), (cfg, line, f, key, value, value_max))
           \<in> measure (\<lambda>(cfg, line, f, key, value, value_max).
                      2 * unread f + (if line = 0 then 1 else 0))"
proof -
  have "kv_parse_next_line f line = (True, f1)" using assms(1,2) by simp
  from next_line_unread [OF this]
  have "2 * unread f1 < 2 * unread f + (if line = 0 then 1 else 0)" by simp
  moreover have "kv_parse_check_key cfg f1 key = (found, f2)" using assms(3) by simp
  from check_key_unread [OF this] have "unread f2 \<le> unread f1" .
  ultimately show ?thesis by simp
qed

function kv_parse_from ::
  "kv_config \<Rightarrow> nat \<Rightarrow> FILE \<Rightarrow> string \<Rightarrow> string \<Rightarrow> nat \<Rightarrow> ((nat \<times> string) \<times> FILE) run" where
  "kv_parse_from cfg line f key value value_max =
     (case kv_parse_next_line f line of
        (has_line, f1) \<Rightarrow>
          if has_line
          then (case kv_parse_check_key cfg f1 key of
                  (found, f2) \<Rightarrow>
                    if found then kv_parse_get_value cfg f2 value value_max
                    else kv_parse_from cfg (Suc line) f2 key value value_max)
          else Done ((0, value), f1))"
  by pat_completeness auto
termination
  apply (relation "measure (\<lambda>(cfg, line, f, key, value, value_max).
                     2 * unread f + (if line = 0 then 1 else 0))")
   apply simp
  apply (erule kv_parse_from_measure, assumption+)
  done

definition kv_parse ::
  "kv_config \<Rightarrow> FILE \<Rightarrow> string \<Rightarrow> string \<Rightarrow> nat \<Rightarrow> ((nat \<times> string) \<times> FILE) run" where
  "kv_parse cfg f key value value_max = kv_parse_from cfg 0 (rewind f) key value value_max"

declare kv_parse_from.simps [simp del]

section \<open>Notions used in the statements\<close>

text \<open>
  Blanks and delimiters as the source tests them, the input after the optional
  skipping of blanks, and the bytes a stream has yet to deliver (a pushed-back byte
  first). \<open>sees ch f s\<close> relates a stream engine loop, which holds the byte \<open>ch\<close> it
  has just read from \<open>f\<close>, to the input \<open>s\<close> it has in front of it.
\<close>

definition is_blank :: "char \<Rightarrow> bool" where
  "is_blank c \<longleftrightarrow> c = SPC \<or> c = TAB"

definition is_delimiter :: "char \<Rightarrow> bool" where
  "is_delimiter c \<longleftrightarrow> c = CHR ''='' \<or> c = CHR '':''"

definition after_blanks :: "kv_config \<Rightarrow> string \<Rightarrow> string" where
  "after_blanks cfg s = (if whitespace_skip cfg then dropWhile is_blank s else s)"

definition pending :: "FILE \<Rightarrow> string" where
  "pending f = (case pushed f of None \<Rightarrow> [] | Some c \<Rightarrow> [c]) @ drop (offset f) (content f)"

definition sees :: "char \<Rightarrow> FILE \<Rightarrow> string \<Rightarrow> bool" where
  "sees ch f s \<longleftrightarrow> (s = [] \<and> ch = EOF_char \<and> pending f = []) \<or> s = ch # pending f"

text \<open>
  The input in front of the copy loop of \<^verbatim>\<open>kv_parse_check_section\<close>, which holds the
  result \<open>ch\<close> of its last \<^verbatim>\<open>getc\<close>.
\<close>

definition ahead :: "char option \<Rightarrow> FILE \<Rightarrow> string" where
  "ahead ch f = (case ch of None \<Rightarrow> [] | Some c \<Rightarrow> c # pending f)"

text \<open>
  The result of a stream engine function without the stream, to compare it with
  the buffer engine's, and the texts that hold neither of the two bytes the engines
  take for the end of the input.
\<close>

fun result_of :: "('a \<times> FILE) run \<Rightarrow> 'a run" where
  "result_of (Fault e) = Fault e"
| "result_of (Done (x, f)) = Done x"

definition plain :: "string \<Rightarrow> bool" where
  "plain s \<longleftrightarrow> NUL \<notin> set s \<and> EOF_char \<notin> set s"

text \<open>
  The line starts of a null-terminated input, in the order of the text: the input
  itself, and every position that follows a line feed and is not the end of the
  string (a line feed as the last byte starts no line).
\<close>

fun later_line_starts :: "string \<Rightarrow> string list" where
  "later_line_starts [] = []"
| "later_line_starts (c # s) =
     (if c = NUL then []
      else if c = LF then (if deref s = NUL then [] else s # later_line_starts s)
      else later_line_starts s)"

definition line_starts :: "string \<Rightarrow> string list" where
  "line_starts input = input # later_line_starts input"

text \<open>
  A line holds the key, read off the text of the line: after the optional blanks
  the line starts with the bytes of the key, and the first byte after them and
  after further optional blanks is \<^verbatim>\<open>=\<close> or \<^verbatim>\<open>:\<close>. The result is the text that follows
  that delimiter.
\<close>

definition key_on_line :: "kv_config \<Rightarrow> string \<Rightarrow> string \<Rightarrow> string option" where
  "key_on_line cfg key l =
     (let s = after_blanks cfg l
      in if take (length key) s = key
         then (case after_blanks cfg (drop (length key) s) of
                 [] \<Rightarrow> None
               | d # v \<Rightarrow> if is_delimiter d then Some v else None)
         else None)"

text \<open>
  A stream whose pushed-back byte, if it has one, is the byte of the file just
  before its offset: the state after \<^verbatim>\<open>rewind\<close> and after the \<^verbatim>\<open>ungetc\<close> of
  \<^verbatim>\<open>kv_parse_next_line\<close>. On such a stream \<^verbatim>\<open>fseek\<close> to the value of \<^verbatim>\<open>ftell\<close> gives back
  the same unread bytes.
\<close>

definition consistent :: "FILE \<Rightarrow> bool" where
  "consistent f \<longleftrightarrow>
     (case pushed f of
        None \<Rightarrow> True
      | Some c \<Rightarrow> 0 < offset f \<and> offset f \<le> length (content f) \<and> content f ! (offset f - 1) = c)"


section \<open>Facts shared by the proofs\<close>

lemmas memory_defs = rd_def wr_def size_dec_def end_of_value_def end_of_section_def too_large_def

lemmas buffer_defs =
  kv_parse_buffer_next_line_def kv_parse_buffer_check_key_def buffer_value_scan_def
  kv_parse_buffer_get_value_def kv_parse_buffer_check_section_def

lemmas stdio_defs = getc_def getc_char_def ungetc_def ftell_def fseek_def

lemmas stream_defs =
  kv_parse_next_line_def kv_parse_check_key_def stream_value_scan_def kv_parse_get_value_def
  kv_parse_check_section_def fscan_next_line.simps fskip_blanks.simps fcopy_value.simps
  fcopy_section.simps

lemma SIZE_MAX_pos: "0 < SIZE_MAX"
  by (simp add: SIZE_MAX_def)

lemma skip_blanks_eq: "skip_blanks s = dropWhile is_blank s"
  by (induction s) (auto simp: is_blank_def)

lemma deref_dropWhile_blank: "\<not> is_blank (deref (dropWhile is_blank s))"
  by (induction s) (auto simp: is_blank_def)

lemma dropWhile_blank_id: "\<not> is_blank (deref s) \<Longrightarrow> dropWhile is_blank s = s"
  by (cases s) auto

lemma after_blanks_idem: "after_blanks cfg (after_blanks cfg s) = after_blanks cfg s"
  by (simp add: after_blanks_def dropWhile_idem)

lemma check_key_empty_buffer:
  "kv_parse_buffer_check_key cfg str [] =
     (case after_blanks cfg str of
        [] \<Rightarrow> None
      | d # v \<Rightarrow> if is_delimiter d then Some v else None)"
proof -
  have "kv_parse_buffer_check_key cfg str [] =
          (let s = after_blanks cfg str
           in if deref s \<noteq> CHR ''='' \<and> deref s \<noteq> CHR '':'' then None else Some (tl s))"
    by (simp add: kv_parse_buffer_check_key_def after_blanks_def skip_blanks_eq dropWhile_idem)
  then show ?thesis
    by (cases "after_blanks cfg str") (auto simp: is_delimiter_def)
qed

lemma getc_char_sees:
  assumes "getc_char f = (ch, f')"
  shows "sees ch f' (pending f)" and "content f' = content f" and "pushed f' = None"
  using assms
  by (auto simp: getc_char_def getc_def pending_def sees_def Cons_nth_drop_Suc
        split: option.splits if_splits)

lemma sees_Nil: "sees ch f [] \<Longrightarrow> ch = EOF_char \<and> pending f = []"
  by (auto simp: sees_def)

lemma sees_Cons: "sees ch f (c # s) \<Longrightarrow> ch = c \<and> pending f = s"
  by (auto simp: sees_def)

lemma sees_delimiter: "sees ch f s \<Longrightarrow> is_delimiter ch = is_delimiter (deref s)"
  by (cases s) (auto simp: sees_def is_delimiter_def)

lemma sees_blank: "sees ch f s \<Longrightarrow> is_blank ch = is_blank (deref s)"
  by (cases s) (auto simp: sees_def is_blank_def)

lemma fskip_blanks_sees:
  "sees ch f s \<Longrightarrow> fskip_blanks ch f = (ch', f') \<Longrightarrow>
     sees ch' f' (dropWhile is_blank s) \<and> content f' = content f \<and> \<not> is_blank ch'"
proof (induction ch f arbitrary: s rule: fskip_blanks.induct)
  case (1 ch f)
  show ?case
  proof (cases "is_blank ch")
    case True
    then have ne: "s = ch # pending f"
      using "1.prems"(1) by (auto simp: sees_def is_blank_def)
    obtain c1 f1 where g: "getc_char f = (c1, f1)" by (cases "getc_char f")
    from True g "1.prems"(2) have r: "fskip_blanks c1 f1 = (ch', f')"
      by (simp add: fskip_blanks.simps [of ch f] is_blank_def)
    have "sees c1 f1 (pending f)" using getc_char_sees(1) [OF g] .
    have b: "ch = SPC \<or> ch = TAB" using True by (simp add: is_blank_def)
    from "1.IH" [OF b g [symmetric] \<open>sees c1 f1 (pending f)\<close> r]
    have "sees ch' f' (dropWhile is_blank (pending f)) \<and> content f' = content f1 \<and> \<not> is_blank ch'"
      .
    with True ne getc_char_sees(2) [OF g] show ?thesis by simp
  next
    case False
    then have "fskip_blanks ch f = (ch, f)"
      by (simp add: fskip_blanks.simps [of ch f] is_blank_def)
    moreover have "dropWhile is_blank s = s"
      using False "1.prems"(1) by (cases s) (auto simp: sees_def)
    ultimately show ?thesis using "1.prems" False by simp
  qed
qed

lemma match_key_append:
  "match_key (key @ t) key = Some (drop (length (takeWhile (\<lambda>k. k \<noteq> NUL) key)) key @ t)"
  by (induction key) auto

lemma drop_takeWhile_cases:
  "drop (length (takeWhile P xs)) xs = [] \<or> \<not> P (hd (drop (length (takeWhile P xs)) xs))"
  by (induction xs) auto

lemma fmatch_key_sees:
  "sees ch f (key @ t) \<Longrightarrow>
     \<exists>ch' f'. fmatch_key ch f key = Compared ch' f'
       \<and> sees ch' f'
            (drop (length (takeWhile (\<lambda>k. k \<noteq> NUL \<and> k \<noteq> EOF_char) key)) key @ t)
       \<and> content f' = content f"
proof (induction key arbitrary: ch f)
  case Nil
  then show ?case by simp
next
  case (Cons k key)
  from Cons.prems have ch: "ch = k" and p: "pending f = key @ t"
    using sees_Cons [of ch f k "key @ t"] by simp_all
  show ?case
  proof (cases "k \<noteq> NUL \<and> k \<noteq> EOF_char")
    case True
    obtain c1 f1 where g: "getc_char f = (c1, f1)" by (cases "getc_char f")
    have "sees c1 f1 (key @ t)" using getc_char_sees(1) [OF g] p by simp
    from Cons.IH [OF this] obtain ch' f' where
      "fmatch_key c1 f1 key = Compared ch' f'"
      "sees ch' f' (drop (length (takeWhile (\<lambda>k. k \<noteq> NUL \<and> k \<noteq> EOF_char) key)) key @ t)"
      "content f' = content f1"
      by blast
    with True ch g getc_char_sees(2) [OF g] show ?thesis by simp
  next
    case False
    with ch Cons.prems show ?thesis by auto
  qed
qed


lemma ftell_fseek: "0 \<le> off \<Longrightarrow> ftell (fseek f off) = off"
  by (simp add: ftell_def fseek_def)

lemma content_fseek: "content (fseek f off) = content f"
  by (simp add: fseek_def)

lemma check_key_buffer_general:
  assumes "after_blanks cfg str = key @ t"
  shows "kv_parse_buffer_check_key cfg str key =
           (let s = after_blanks cfg (drop (length (takeWhile (\<lambda>k. k \<noteq> NUL) key)) key @ t)
            in if is_delimiter (deref s) then Some (tl s) else None)"
proof -
  have "(if whitespace_skip cfg then skip_blanks str else str) = key @ t"
    using assms by (auto simp: after_blanks_def skip_blanks_eq split: if_splits)
  then show ?thesis
    by (simp add: kv_parse_buffer_check_key_def match_key_append after_blanks_def
          skip_blanks_eq is_delimiter_def Let_def)
qed

lemma check_key_stream_general:
  assumes "after_blanks cfg (pending f) = key @ t"
  shows "\<exists>ch f'. sees ch f'
             (after_blanks cfg
                (drop (length (takeWhile (\<lambda>k. k \<noteq> NUL \<and> k \<noteq> EOF_char) key)) key @ t))
           \<and> content f' = content f
           \<and> kv_parse_check_key cfg f key =
               (if is_delimiter ch then (True, f') else (False, fseek f' (ftell f)))"
proof -
  obtain c0 f0 where g: "getc_char f = (c0, f0)" by (cases "getc_char f")
  have s0: "sees c0 f0 (pending f)" and k0: "content f0 = content f"
    using getc_char_sees [OF g] by simp_all
  obtain c1 f1 where sk1: "(if whitespace_skip cfg then fskip_blanks c0 f0 else (c0, f0)) = (c1, f1)"
    by (cases "if whitespace_skip cfg then fskip_blanks c0 f0 else (c0, f0)")
  have s1: "sees c1 f1 (key @ t)" and k1: "content f1 = content f"
    using sk1 s0 k0 assms fskip_blanks_sees [of c0 f0 "pending f" c1 f1]
    by (auto simp: after_blanks_def split: if_splits)
  from fmatch_key_sees [OF s1] obtain c2 f2 where
    m: "fmatch_key c1 f1 key = Compared c2 f2" and
    s2: "sees c2 f2 (drop (length (takeWhile (\<lambda>k. k \<noteq> NUL \<and> k \<noteq> EOF_char) key)) key @ t)" and
    k2: "content f2 = content f1"
    by blast
  obtain c3 f3 where sk2: "(if whitespace_skip cfg then fskip_blanks c2 f2 else (c2, f2)) = (c3, f3)"
    by (cases "if whitespace_skip cfg then fskip_blanks c2 f2 else (c2, f2)")
  have s3: "sees c3 f3
              (after_blanks cfg
                 (drop (length (takeWhile (\<lambda>k. k \<noteq> NUL \<and> k \<noteq> EOF_char) key)) key @ t))"
    and k3: "content f3 = content f"
    using sk2 s2 k2 k1
      fskip_blanks_sees [of c2 f2
        "drop (length (takeWhile (\<lambda>k. k \<noteq> NUL \<and> k \<noteq> EOF_char) key)) key @ t" c3 f3]
    by (auto simp: after_blanks_def split: if_splits)
  have "kv_parse_check_key cfg f key =
          (if is_delimiter c3 then (True, f3) else (False, fseek f3 (ftell f)))"
    using g sk1 m sk2 by (simp add: kv_parse_check_key_def is_delimiter_def)
  with s3 k3 show ?thesis by blast
qed

lemma check_key_no_match_restores:
  assumes "\<not> fst (kv_parse_check_key cfg f key)" and "0 \<le> ftell f"
  shows "ftell (snd (kv_parse_check_key cfg f key)) = ftell f"
proof -
  have "\<exists>f'. kv_parse_check_key cfg f key = (False, fseek f' (ftell f))"
    using assms(1)
    by (auto simp: kv_parse_check_key_def Let_def split: prod.splits key_exit.splits if_splits)
  with assms(2) show ?thesis by (auto simp: ftell_fseek)
qed

lemma no_delimiter_after_key:
  assumes "X = [] \<or> hd X = NUL \<or> hd X = EOF_char"
    and "\<not> is_delimiter (deref t)"
    and "if whitespace_skip cfg then (\<forall>c\<in>set mid. is_blank c) \<and> \<not> is_blank (deref t)
         else mid = []"
  shows "\<not> is_delimiter (deref (after_blanks cfg (X @ mid @ t)))"
proof (cases X)
  case Nil
  have "after_blanks cfg (mid @ t) = t"
    using assms(3) by (auto simp: after_blanks_def dropWhile_append2 dropWhile_blank_id)
  with Nil assms(2) show ?thesis by simp
next
  case (Cons x xs)
  with assms(1) have "x = NUL \<or> x = EOF_char" by simp
  then have "\<not> is_blank x" "\<not> is_delimiter x" by (auto simp: is_blank_def is_delimiter_def)
  with Cons show ?thesis by (simp add: after_blanks_def)
qed

lemma is_blank_not_stop: "is_blank b \<Longrightarrow> b \<noteq> NUL \<and> b \<noteq> EOF_char"
  by (auto simp: is_blank_def)

lemma check_key_buffer_blank_key:
  assumes "whitespace_skip cfg" and "is_blank b"
  shows "kv_parse_buffer_check_key cfg str (b # key) = None"
proof -
  let ?s = "dropWhile is_blank str"
  have nb: "\<not> is_blank (deref ?s)" by (rule deref_dropWhile_blank)
  then have ne: "deref ?s \<noteq> b" using assms(2) by auto
  have "match_key ?s (b # key) = None \<or> (match_key ?s (b # key) = Some ?s \<and> deref ?s = NUL)"
    using ne is_blank_not_stop [OF assms(2)] by simp
  then show ?thesis
    using assms(1)
    by (auto simp: kv_parse_buffer_check_key_def skip_blanks_eq dropWhile_idem)
qed

lemma check_key_stream_blank_key:
  assumes "whitespace_skip cfg" and "is_blank b"
  shows "\<not> fst (kv_parse_check_key cfg f (b # key))"
proof -
  obtain c0 f0 where g: "getc_char f = (c0, f0)" by (cases "getc_char f")
  obtain c1 f1 where sk: "fskip_blanks c0 f0 = (c1, f1)" by (cases "fskip_blanks c0 f0")
  have nb: "\<not> is_blank c1"
    using fskip_blanks_sees [OF getc_char_sees(1) [OF g] sk] by simp
  then have ne: "c1 \<noteq> b" using assms(2) by auto
  have same: "fskip_blanks c1 f1 = (c1, f1)"
    using nb by (simp add: fskip_blanks.simps [of c1 f1] is_blank_def)
  have "fmatch_key c1 f1 (b # key) = Mismatch f1
          \<or> (fmatch_key c1 f1 (b # key) = Compared c1 f1 \<and> c1 = EOF_char)"
    using ne is_blank_not_stop [OF assms(2)] by auto
  then show ?thesis
    using assms(1) g sk same by (auto simp: kv_parse_check_key_def)
qed


lemma scan_next_line_later:
  "scan_next_line s = (case later_line_starts s of [] \<Rightarrow> None | l # _ \<Rightarrow> Some l)"
  by (induction s) auto

lemma later_line_starts_tail:
  "later_line_starts s = l # ls \<Longrightarrow> ls = later_line_starts l"
  by (induction s) (auto split: if_splits)

lemma kv_parse_buffer_from_later:
  assumes "0 < line"
    and "later_line_starts input = before @ l # after"
    and "\<forall>b\<in>set before. kv_parse_buffer_check_key cfg b key = None"
    and "kv_parse_buffer_check_key cfg l key = Some v"
  shows "kv_parse_buffer_from cfg line input key value value_max
           = kv_parse_buffer_get_value cfg v value value_max"
  using assms
proof (induction before arbitrary: input line)
  case Nil
  then have "kv_parse_buffer_next_line input line = Some l"
    by (simp add: kv_parse_buffer_next_line_def scan_next_line_later)
  with Nil show ?case
    by (simp add: kv_parse_buffer_from.simps [of cfg line input])
next
  case (Cons b bs)
  then have n: "kv_parse_buffer_next_line input line = Some b"
    by (simp add: kv_parse_buffer_next_line_def scan_next_line_later)
  have "later_line_starts b = bs @ l # after"
    using later_line_starts_tail [of input b "bs @ l # after"] Cons.prems(2) by simp
  from Cons.IH [OF _ this _ Cons.prems(4), of "Suc line"] Cons.prems(3)
  have "kv_parse_buffer_from cfg (Suc line) b key value value_max
          = kv_parse_buffer_get_value cfg v value value_max"
    by simp
  with n Cons.prems(3) show ?case
    by (simp add: kv_parse_buffer_from.simps [of cfg line input])
qed

subsection \<open>The destination under the copy loops\<close>

lemma wr_Done: "wr buf i c = Done d \<Longrightarrow> 0 \<le> i \<and> nat i < length buf \<and> d = buf[nat i := c]"
  by (auto simp: wr_def split: if_splits)

lemma wr_ok: "0 \<le> i \<Longrightarrow> nat i < length buf \<Longrightarrow> wr buf i c = Done (buf[nat i := c])"
  by (auto simp: wr_def)

lemma rd_ok: "0 \<le> i \<Longrightarrow> nat i < length buf \<Longrightarrow> rd buf i = Done (buf ! nat i)"
  by (auto simp: rd_def)

lemma trim_trailing_ok:
  "i \<le> length v \<Longrightarrow>
     \<exists>j d. trim_trailing i v = Done (j, d) \<and> j \<le> i \<and> length d = length v
       \<and> (\<forall>k. k < j \<or> i \<le> k \<longrightarrow> d ! k = v ! k)
       \<and> (\<forall>k. j \<le> k \<and> k < i \<longrightarrow> d ! k = NUL)
       \<and> (\<forall>k<i. \<not> is_blank (v ! k) \<longrightarrow> k < j)"
proof (induction i arbitrary: v)
  case 0
  then show ?case by simp
next
  case (Suc i)
  then have len: "i < length v" by simp
  show ?case
  proof (cases "is_blank (v ! i)")
    case True
    let ?v = "v[i := NUL]"
    from Suc.IH [of ?v] len obtain j d where
      t: "trim_trailing i ?v = Done (j, d)" and j: "j \<le> i" and l: "length d = length v"
      and keep: "\<forall>k. k < j \<or> i \<le> k \<longrightarrow> d ! k = ?v ! k"
      and nul: "\<forall>k. j \<le> k \<and> k < i \<longrightarrow> d ! k = NUL"
      and nb: "\<forall>k<i. \<not> is_blank (?v ! k) \<longrightarrow> k < j"
      by auto
    have r: "trim_trailing (Suc i) v = Done (j, d)"
      using True len t by (simp add: rd_ok wr_ok is_blank_def)
    have "\<forall>k. k < j \<or> Suc i \<le> k \<longrightarrow> d ! k = v ! k"
      using keep j by auto
    moreover have "\<forall>k. j \<le> k \<and> k < Suc i \<longrightarrow> d ! k = NUL"
    proof (intro allI impI)
      fix k assume k: "j \<le> k \<and> k < Suc i"
      show "d ! k = NUL"
      proof (cases "k = i")
        case True
        with keep len show ?thesis by simp
      next
        case False
        with k nul show ?thesis by simp
      qed
    qed
    moreover have "\<forall>k<Suc i. \<not> is_blank (v ! k) \<longrightarrow> k < j"
    proof (intro allI impI)
      fix k assume k: "k < Suc i" and b: "\<not> is_blank (v ! k)"
      with True have "k \<noteq> i" by auto
      with k have "k < i" by simp
      with nb b \<open>k \<noteq> i\<close> show "k < j" by simp
    qed
    ultimately show ?thesis using r j l by auto
  next
    case False
    then have "trim_trailing (Suc i) v = Done (Suc i, v)"
      using len by (simp add: rd_ok is_blank_def)
    then show ?thesis by auto
  qed
qed

lemma end_of_value_Done:
  assumes "end_of_value cfg i value = Done x"
  shows "\<exists>n d. x = Returned n d \<and> n \<le> i \<and> i < length value \<and> length d = length value
           \<and> d ! n = NUL"
proof -
  from assms obtain v1 where w: "wr value (int i) NUL = Done v1"
    by (auto simp: end_of_value_def split: run.splits)
  then have i: "i < length value" and v1: "v1 = value[i := NUL]"
    using wr_Done [OF w] by simp_all
  show ?thesis
  proof (cases "whitespace_skip cfg")
    case False
    with assms w v1 i show ?thesis by (auto simp: end_of_value_def)
  next
    case True
    from trim_trailing_ok [of i v1] i v1 obtain j d where
      t: "trim_trailing i v1 = Done (j, d)" and j: "j \<le> i" and l: "length d = length v1"
      and keep: "\<forall>k. k < j \<or> i \<le> k \<longrightarrow> d ! k = v1 ! k"
      and nul: "\<forall>k. j \<le> k \<and> k < i \<longrightarrow> d ! k = NUL"
      by auto
    have "d ! j = NUL"
    proof (cases "j = i")
      case True
      with keep v1 i show ?thesis by simp
    next
      case False
      with j nul show ?thesis by simp
    qed
    with True assms w t j l v1 i show ?thesis by (auto simp: end_of_value_def)
  qed
qed

lemma end_of_value_ok:
  "i < length value \<Longrightarrow> \<exists>x. end_of_value cfg i value = Done x"
  using trim_trailing_ok [of i "value[i := NUL]"]
  by (auto simp: end_of_value_def wr_ok split: run.splits)

lemma end_of_section_Done:
  assumes "end_of_section i section = Done x"
  shows "\<exists>n d. x = Returned n d \<and> n \<le> i \<and> i < length section \<and> length d = length section
           \<and> d ! n = NUL"
proof -
  from assms obtain s1 where w: "wr section (int i) NUL = Done s1"
    by (auto simp: end_of_section_def split: run.splits)
  then have i: "i < length section" and s1: "s1 = section[i := NUL]"
    using wr_Done [OF w] by simp_all
  from trim_trailing_ok [of i s1] i s1 obtain j s2 where
    t: "trim_trailing i s1 = Done (j, s2)" and j: "j \<le> i" and l: "length s2 = length section"
    by auto
  from assms w t obtain c where r: "rd s2 (int j - 1) = Done c"
    by (auto simp: end_of_section_def split: run.splits)
  then have jpos: "0 < j" by (auto simp: rd_def split: if_splits)
  show ?thesis
  proof (cases "c \<noteq> CHR '']''")
    case True
    with assms w t r i l j show ?thesis
      by (auto simp: end_of_section_def dest!: wr_Done split: run.splits)
  next
    case False
    with assms w t r i l j jpos show ?thesis
      by (auto simp: end_of_section_def nat_diff_distrib dest!: wr_Done split: run.splits)
  qed
qed


lemma copy_value_Done:
  "copy_value cfg lim quote prev i str value = Done x \<Longrightarrow>
     (case x of
        Returned n d \<Rightarrow> n < lim \<and> n < length d \<and> length d = length value \<and> d ! n = NUL
      | Exhausted d \<Rightarrow> length d = length value)"
proof (induction str arbitrary: quote prev i "value")
  case Nil
  then show ?case by (auto split: if_splits dest!: end_of_value_Done)
next
  case (Cons c str)
  show ?case
  proof (cases "i < lim")
    case False
    with Cons.prems show ?thesis by auto
  next
    case lt: True
    show ?thesis
    proof (cases "c = NUL \<or> c = CR \<or> c = LF")
      case True
      with lt Cons.prems show ?thesis by (auto dest!: end_of_value_Done)
    next
      case neol: False
      show ?thesis
      proof (cases "quoted_strings cfg \<and> quote = NUL \<and> (c = SQUOTE \<or> c = DQUOTE)")
        case True
        with lt neol Cons.prems Cons.IH [of c prev i "value"] show ?thesis by auto
      next
        case nopen: False
        show ?thesis
        proof (cases "quoted_strings cfg \<and> quote \<noteq> NUL \<and> c = quote")
          case True
          show ?thesis
          proof (cases "prev = BACKSLASH")
            case False
            with True lt neol nopen Cons.prems show ?thesis
              by (auto split: run.splits dest!: wr_Done)
          next
            case esc: True
            from esc True lt neol nopen Cons.prems obtain v' where
              w: "wr value (int i - 1) c = Done v'" and
              r: "copy_value cfg lim quote prev i str v' = Done x"
              by (auto split: run.splits)
            from wr_Done [OF w] have "length v' = length value" by simp
            with Cons.IH [OF r] show ?thesis by (auto split: copy_exit.splits)
          qed
        next
          case False
          with lt neol nopen Cons.prems obtain v' where
            w: "wr value (int i) c = Done v'" and
            r: "copy_value cfg lim quote (if quoted_strings cfg then c else prev) (Suc i) str v'
                  = Done x"
            by (auto split: run.splits)
          from wr_Done [OF w] have "length v' = length value" by simp
          with Cons.IH [OF r] show ?thesis by (auto split: copy_exit.splits)
        qed
      qed
    qed
  qed
qed

lemma copy_value_safe:
  "lim < length value \<Longrightarrow> (quoted_strings cfg \<and> prev = BACKSLASH \<longrightarrow> 0 < i) \<Longrightarrow>
     \<exists>x. copy_value cfg lim quote prev i str value = Done x"
proof (induction str arbitrary: quote prev i "value")
  case Nil
  then show ?case using end_of_value_ok [of i "value" cfg] by auto
next
  case (Cons c str)
  show ?case
  proof (cases "i < lim")
    case False
    then show ?thesis by simp
  next
    case lt: True
    with Cons.prems have il: "i < length value" by simp
    show ?thesis
    proof (cases "c = NUL \<or> c = CR \<or> c = LF")
      case True
      with lt show ?thesis using end_of_value_ok [OF il, of cfg] by auto
    next
      case neol: False
      show ?thesis
      proof (cases "quoted_strings cfg \<and> quote = NUL \<and> (c = SQUOTE \<or> c = DQUOTE)")
        case True
        with lt neol Cons.IH [OF Cons.prems, of c] show ?thesis by auto
      next
        case nopen: False
        show ?thesis
        proof (cases "quoted_strings cfg \<and> quote \<noteq> NUL \<and> c = quote")
          case True
          show ?thesis
          proof (cases "prev = BACKSLASH")
            case False
            with True lt neol nopen il show ?thesis by (auto simp: wr_ok)
          next
            case esc: True
            with True Cons.prems(2) have ipos: "0 < i" by simp
            then have w: "wr value (int i - 1) c = Done (value[i - 1 := c])"
              using il by (simp add: wr_def nat_diff_distrib)
            from Cons.IH [of "value[i - 1 := c]" prev i quote] Cons.prems
            obtain x where "copy_value cfg lim quote prev i str (value[i - 1 := c]) = Done x"
              by auto
            with esc True lt neol nopen w show ?thesis by auto
          qed
        next
          case False
          have w: "wr value (int i) c = Done (value[i := c])" using il by (simp add: wr_ok)
          from Cons.IH [of "value[i := c]" "if quoted_strings cfg then c else prev" "Suc i" quote]
            Cons.prems(1)
          obtain x where
            "copy_value cfg lim quote (if quoted_strings cfg then c else prev) (Suc i) str
               (value[i := c]) = Done x"
            by auto
          with False lt neol nopen w show ?thesis by auto
        qed
      qed
    qed
  qed
qed


lemma fcopy_value_Done:
  "fcopy_value cfg lim start quote prev i ch f value = Done (x, f') \<Longrightarrow>
     (case x of
        Returned n d \<Rightarrow> n < lim \<and> n < length d \<and> length d = length value \<and> d ! n = NUL
      | Exhausted d \<Rightarrow> length d = length value)"
proof (induction cfg lim start quote prev i ch f "value" arbitrary: x f'
    rule: fcopy_value.induct)
  case (1 cfg lim start quote prev i ch f v)
  note r = "1.prems" [unfolded fcopy_value.simps [of cfg lim start quote prev i ch f v]]
  obtain c1 f1 where g: "(c1, f1) = getc_char f" by (cases "getc_char f") auto
  show ?case
  proof (cases "i < lim")
    case False
    with r show ?thesis by auto
  next
    case lt: True
    show ?thesis
    proof (cases "ch = EOF_char \<or> ch = CR \<or> ch = LF")
      case True
      with lt r show ?thesis by (auto split: run.splits dest!: end_of_value_Done)
    next
      case neol: False
      show ?thesis
      proof (cases "quoted_strings cfg \<and> quote = EOF_char \<and> (ch = SQUOTE \<or> ch = DQUOTE)")
        case True
        with lt neol r g [symmetric]
        have "fcopy_value cfg lim start ch prev i c1 f1 v = Done (x, f')" by simp
        from "1.IH"(1) [OF lt neol True g this] show ?thesis .
      next
        case nopen: False
        show ?thesis
        proof (cases "quoted_strings cfg \<and> quote \<noteq> EOF_char \<and> prev \<noteq> BACKSLASH \<and> ch = quote")
          case True
          with lt neol nopen r show ?thesis by (auto split: run.splits dest!: wr_Done)
        next
          case nclose: False
          show ?thesis
          proof (cases "quoted_strings cfg \<and> quote \<noteq> EOF_char \<and> prev = BACKSLASH \<and> ch = quote")
            case True
            with lt neol nopen nclose r g [symmetric] obtain v' where
              w: "wr v (int i - 1) ch = Done v'" and
              rr: "fcopy_value cfg lim start quote prev i c1 f1 v' = Done (x, f')"
              by (auto split: run.splits)
            from wr_Done [OF w] have "length v' = length v" by simp
            with "1.IH"(2) [OF lt neol nopen nclose True w g rr] show ?thesis
              by (auto split: copy_exit.splits)
          next
            case nesc: False
            with lt neol nopen nclose r g [symmetric] obtain v' where
              w: "wr v (int i) ch = Done v'" and
              rr: "fcopy_value cfg lim start quote (if quoted_strings cfg then ch else prev)
                     (Suc i) c1 f1 v' = Done (x, f')"
              by (auto split: run.splits)
            from wr_Done [OF w] have "length v' = length v" by simp
            with "1.IH"(3) [OF lt neol nopen nclose nesc w g rr] show ?thesis
              by (auto split: copy_exit.splits)
          qed
        qed
      qed
    qed
  qed
qed

lemma fcopy_value_safe:
  "lim < length value \<Longrightarrow> (quoted_strings cfg \<and> prev = BACKSLASH \<longrightarrow> 0 < i) \<Longrightarrow>
     \<exists>x. fcopy_value cfg lim start quote prev i ch f value = Done x"
proof (induction cfg lim start quote prev i ch f "value" rule: fcopy_value.induct)
  case (1 cfg lim start quote prev i ch f v)
  note unf = fcopy_value.simps [of cfg lim start quote prev i ch f v]
  obtain c1 f1 where g: "(c1, f1) = getc_char f" by (cases "getc_char f") auto
  show ?case
  proof (cases "i < lim")
    case False
    then show ?thesis unfolding unf by simp
  next
    case lt: True
    with "1.prems" have il: "i < length v" by simp
    show ?thesis
    proof (cases "ch = EOF_char \<or> ch = CR \<or> ch = LF")
      case True
      with lt show ?thesis unfolding unf using end_of_value_ok [OF il, of cfg] by auto
    next
      case neol: False
      show ?thesis
      proof (cases "quoted_strings cfg \<and> quote = EOF_char \<and> (ch = SQUOTE \<or> ch = DQUOTE)")
        case True
        from "1.IH"(1) [OF lt neol True g "1.prems"]
        obtain x where "fcopy_value cfg lim start ch prev i c1 f1 v = Done x" by blast
        with lt neol True g [symmetric] show ?thesis unfolding unf by simp
      next
        case nopen: False
        show ?thesis
        proof (cases "quoted_strings cfg \<and> quote \<noteq> EOF_char \<and> prev \<noteq> BACKSLASH \<and> ch = quote")
          case True
          with lt neol nopen il show ?thesis unfolding unf by (simp add: wr_ok)
        next
          case nclose: False
          show ?thesis
          proof (cases "quoted_strings cfg \<and> quote \<noteq> EOF_char \<and> prev = BACKSLASH \<and> ch = quote")
            case True
            with "1.prems"(2) have ipos: "0 < i" by simp
            then have w: "wr v (int i - 1) ch = Done (v[i - 1 := ch])"
              using il by (simp add: wr_def nat_diff_distrib)
            have "lim < length (v[i - 1 := ch])" using "1.prems"(1) by simp
            from "1.IH"(2) [OF lt neol nopen nclose True w g this "1.prems"(2)]
            obtain x where "fcopy_value cfg lim start quote prev i c1 f1 (v[i - 1 := ch]) = Done x"
              by blast
            with lt neol nopen nclose True w g [symmetric] show ?thesis unfolding unf by auto
          next
            case nesc: False
            have w: "wr v (int i) ch = Done (v[i := ch])" using il by (simp add: wr_ok)
            have "lim < length (v[i := ch])" using "1.prems"(1) by simp
            from "1.IH"(3) [OF lt neol nopen nclose nesc w g this]
            obtain x where
              "fcopy_value cfg lim start quote (if quoted_strings cfg then ch else prev) (Suc i)
                 c1 f1 (v[i := ch]) = Done x"
              by auto
            with lt neol nopen nclose nesc w g [symmetric] show ?thesis unfolding unf by auto
          qed
        qed
      qed
    qed
  qed
qed


lemma getc_ahead:
  assumes "getc f = (ch, f')"
  shows "ahead ch f' = pending f" and "content f' = content f"
  using assms
  by (auto simp: getc_def pending_def ahead_def Cons_nth_drop_Suc split: option.splits if_splits)

lemma end_of_section_nonblank:
  assumes "i < length section" and "\<exists>k<i. \<not> is_blank (section ! k)"
  shows "\<exists>x. end_of_section i section = Done x"
proof -
  let ?s1 = "section[i := NUL]"
  have w: "wr section (int i) NUL = Done ?s1" using assms by (simp add: wr_ok)
  from trim_trailing_ok [of i ?s1] assms obtain j s2 where
    t: "trim_trailing i ?s1 = Done (j, s2)" and j: "j \<le> i" and l: "length s2 = length section"
    and nb: "\<forall>k<i. \<not> is_blank (?s1 ! k) \<longrightarrow> k < j"
    by auto
  have pos: "0 < j \<Longrightarrow> \<exists>x. end_of_section i section = Done x"
  proof -
    assume jpos: "0 < j"
    then have r: "rd s2 (int j - 1) = Done (s2 ! (j - 1))"
      using j l assms by (simp add: rd_def nat_diff_distrib)
    have w0: "wr s2 0 NUL = Done (s2[0 := NUL])" using l assms by (auto simp: wr_def)
    have w1: "wr s2 (int j - 1) NUL = Done (s2[j - 1 := NUL])"
      using jpos j l assms by (simp add: wr_def nat_diff_distrib)
    show ?thesis using w t r w0 w1 by (simp add: end_of_section_def)
  qed
  from assms(2) obtain k where "k < i" "\<not> is_blank (section ! k)" by blast
  then have "k < j" using nb by simp
  then show ?thesis using pos by simp
qed

lemma copy_section_Done:
  "copy_section lim i str section = Done x \<Longrightarrow>
     (case x of
        Returned n d \<Rightarrow> n < lim \<and> n < length d \<and> length d = length section \<and> d ! n = NUL
      | Exhausted d \<Rightarrow> length d = length section)"
proof (induction str arbitrary: i "section")
  case Nil
  then show ?case by (auto split: if_splits dest!: end_of_section_Done)
next
  case (Cons c str)
  show ?case
  proof (cases "i < lim \<and> \<not> (c = NUL \<or> c = CR \<or> c = LF)")
    case False
    with Cons.prems show ?thesis by (auto split: if_splits dest!: end_of_section_Done)
  next
    case True
    with Cons.prems obtain s' where
      w: "wr section (int i) c = Done s'" and r: "copy_section lim (Suc i) str s' = Done x"
      by (auto split: run.splits)
    from wr_Done [OF w] have "length s' = length section" by simp
    with Cons.IH [OF r] show ?thesis by (auto split: copy_exit.splits)
  qed
qed

lemma copy_section_safe:
  "lim < length section \<Longrightarrow>
   (\<exists>k<i. \<not> is_blank (section ! k))
     \<or> (\<exists>c\<in>set (takeWhile (\<lambda>c. c \<noteq> NUL \<and> c \<noteq> CR \<and> c \<noteq> LF) str). \<not> is_blank c) \<Longrightarrow>
   \<exists>x. copy_section lim i str section = Done x"
proof (induction str arbitrary: i "section")
  case Nil
  then show ?case using end_of_section_nonblank [of i "section"] by auto
next
  case (Cons c str)
  show ?case
  proof (cases "i < lim")
    case False
    then show ?thesis by simp
  next
    case lt: True
    with Cons.prems have il: "i < length section" by simp
    show ?thesis
    proof (cases "c = NUL \<or> c = CR \<or> c = LF")
      case True
      with Cons.prems(2) have "\<exists>k<i. \<not> is_blank (section ! k)" by auto
      with lt True show ?thesis using end_of_section_nonblank [OF il] by auto
    next
      case False
      have w: "wr section (int i) c = Done (section[i := c])" using il by (simp add: wr_ok)
      have "(\<exists>k<Suc i. \<not> is_blank (section[i := c] ! k))
              \<or> (\<exists>c\<in>set (takeWhile (\<lambda>c. c \<noteq> NUL \<and> c \<noteq> CR \<and> c \<noteq> LF) str). \<not> is_blank c)"
      proof -
        from Cons.prems(2) False consider
          (old) k where "k < i" "\<not> is_blank (section ! k)"
          | (here) "\<not> is_blank c"
          | (later) "\<exists>c\<in>set (takeWhile (\<lambda>c. c \<noteq> NUL \<and> c \<noteq> CR \<and> c \<noteq> LF) str). \<not> is_blank c"
          by auto
        then show ?thesis
        proof cases
          case old
          then have "k < Suc i" "\<not> is_blank (section[i := c] ! k)" by simp_all
          then show ?thesis by blast
        next
          case here
          then have "\<not> is_blank (section[i := c] ! i)" using il by simp
          then show ?thesis by blast
        next
          case later
          then show ?thesis by simp
        qed
      qed
      from Cons.IH [of "section[i := c]" "Suc i", OF _ this] Cons.prems(1)
      obtain x where "copy_section lim (Suc i) str (section[i := c]) = Done x" by auto
      with lt False w show ?thesis by simp
    qed
  qed
qed


lemma fcopy_section_Done:
  "fcopy_section lim start i ch f section = Done (x, f') \<Longrightarrow>
     (case x of
        Returned n d \<Rightarrow> n < lim \<and> n < length d \<and> length d = length section \<and> d ! n = NUL
      | Exhausted d \<Rightarrow> length d = length section)"
proof (induction lim start i ch f "section" arbitrary: x f' rule: fcopy_section.induct)
  case (1 lim start i ch f s)
  note r = "1.prems" [unfolded fcopy_section.simps [of lim start i ch f s]]
  obtain c1 f1 where g: "(c1, f1) = getc f" by (cases "getc f") auto
  show ?case
  proof (cases "i < lim \<and> (\<exists>c. ch = Some c \<and> \<not> (c = CR \<or> c = LF))")
    case False
    with r show ?thesis
      by (auto split: if_splits option.splits run.splits dest!: end_of_section_Done)
  next
    case True
    then obtain c where lt: "i < lim" and ch: "ch = Some c" and neol: "\<not> (c = CR \<or> c = LF)"
      by blast
    with r g [symmetric] obtain s' where
      w: "wr s (int i) c = Done s'" and
      rr: "fcopy_section lim start (Suc i) c1 f1 s' = Done (x, f')"
      by (auto split: run.splits)
    from wr_Done [OF w] have "length s' = length s" by simp
    with "1.IH" [OF lt ch neol w g rr] show ?thesis by (auto split: copy_exit.splits)
  qed
qed

lemma fcopy_section_safe:
  "lim < length section \<Longrightarrow>
   (\<exists>k<i. \<not> is_blank (section ! k))
     \<or> (\<exists>c\<in>set (takeWhile (\<lambda>c. c \<noteq> CR \<and> c \<noteq> LF) (ahead ch f)). \<not> is_blank c) \<Longrightarrow>
   \<exists>x. fcopy_section lim start i ch f section = Done x"
proof (induction lim start i ch f "section" rule: fcopy_section.induct)
  case (1 lim start i ch f s)
  note unf = fcopy_section.simps [of lim start i ch f s]
  obtain c1 f1 where g: "(c1, f1) = getc f" by (cases "getc f") auto
  show ?case
  proof (cases "i < lim")
    case False
    then show ?thesis unfolding unf by simp
  next
    case lt: True
    with "1.prems" have il: "i < length s" by simp
    show ?thesis
    proof (cases "\<exists>c. ch = Some c \<and> \<not> (c = CR \<or> c = LF)")
      case False
      with "1.prems"(2) have "\<exists>k<i. \<not> is_blank (s ! k)"
        by (cases ch) (auto simp: ahead_def)
      from end_of_section_nonblank [OF il this] lt False show ?thesis
        unfolding unf by (auto split: option.splits)
    next
      case True
      then obtain c where ch: "ch = Some c" and neol: "\<not> (c = CR \<or> c = LF)" by blast
      have w: "wr s (int i) c = Done (s[i := c])" using il by (simp add: wr_ok)
      have a: "ahead c1 f1 = pending f" using getc_ahead(1) [OF g [symmetric]] .
      have "(\<exists>k<Suc i. \<not> is_blank (s[i := c] ! k))
              \<or> (\<exists>c\<in>set (takeWhile (\<lambda>c. c \<noteq> CR \<and> c \<noteq> LF) (ahead c1 f1)). \<not> is_blank c)"
      proof -
        from "1.prems"(2) ch neol a consider
          (old) k where "k < i" "\<not> is_blank (s ! k)"
          | (here) "\<not> is_blank c"
          | (later) "\<exists>c\<in>set (takeWhile (\<lambda>c. c \<noteq> CR \<and> c \<noteq> LF) (ahead c1 f1)). \<not> is_blank c"
          by (auto simp: ahead_def)
        then show ?thesis
        proof cases
          case old
          then have "k < Suc i" "\<not> is_blank (s[i := c] ! k)" by simp_all
          then show ?thesis by blast
        next
          case here
          then have "\<not> is_blank (s[i := c] ! i)" using il by simp
          then show ?thesis by blast
        next
          case later
          then show ?thesis by simp
        qed
      qed
      moreover have "lim < length (s[i := c])" using "1.prems"(1) by simp
      ultimately obtain x where "fcopy_section lim start (Suc i) c1 f1 (s[i := c]) = Done x"
        using "1.IH" [OF lt ch neol w g] by blast
      with lt ch neol w g [symmetric] show ?thesis unfolding unf by auto
    qed
  qed
qed

subsection \<open>The four extraction functions as a whole\<close>

lemma take1_NUL: "d \<noteq> [] \<Longrightarrow> d ! 0 = NUL \<Longrightarrow> take (Suc 0) d = [NUL]"
  by (cases d) auto

lemma too_large_Done: "too_large v = Done r \<Longrightarrow> v \<noteq> [] \<and> r = (0, v[0 := NUL])"
  by (auto simp: too_large_def wr_def split: if_splits)

lemma too_large_ok: "v \<noteq> [] \<Longrightarrow> too_large v = Done (0, v[0 := NUL])"
  by (auto simp: too_large_def wr_def)

lemma size_dec_less: "1 \<le> C \<Longrightarrow> size_dec C < C"
  by (simp add: size_dec_def)

lemma buffer_get_value_in_bounds:
  assumes "1 \<le> C" and "length dest = C"
  shows "\<exists>n d. kv_parse_buffer_get_value cfg str dest C = Done (n, d) \<and> length d = C
           \<and> n \<le> C - 1 \<and> d ! n = NUL"
proof -
  have lim: "size_dec C < length dest" using assms by (simp add: size_dec_less)
  from copy_value_safe [OF lim, of cfg NUL 0 NUL "if whitespace_skip cfg then skip_blanks str else str"]
  obtain x where x: "buffer_value_scan cfg str dest C = Done x"
    by (auto simp: buffer_value_scan_def)
  from copy_value_Done [OF x [unfolded buffer_value_scan_def]]
  show ?thesis
  proof (cases x)
    case (Returned n d)
    with x copy_value_Done [OF x [unfolded buffer_value_scan_def]] assms show ?thesis
      by (auto simp: kv_parse_buffer_get_value_def size_dec_def)
  next
    case (Exhausted d)
    with copy_value_Done [OF x [unfolded buffer_value_scan_def]] assms
    have "length d = C" "d \<noteq> []" by auto
    with x Exhausted show ?thesis
      by (auto simp: kv_parse_buffer_get_value_def too_large_ok)
  qed
qed

lemma stream_value_scan_unfold:
  "\<exists>ch f2. stream_value_scan cfg f dest C =
     fcopy_value cfg (size_dec C) (ftell f) EOF_char EOF_char 0 ch f2 dest"
  by (auto simp: stream_value_scan_def Let_def split: prod.splits)

lemma stream_get_value_in_bounds:
  assumes "1 \<le> C" and "length dest = C"
  shows "\<exists>n d f'. kv_parse_get_value cfg f dest C = Done ((n, d), f') \<and> length d = C
           \<and> n \<le> C - 1 \<and> d ! n = NUL"
proof -
  have lim: "size_dec C < length dest" using assms by (simp add: size_dec_less)
  from stream_value_scan_unfold [of cfg f dest C] obtain ch f2 where
    u: "stream_value_scan cfg f dest C =
          fcopy_value cfg (size_dec C) (ftell f) EOF_char EOF_char 0 ch f2 dest"
    by blast
  from fcopy_value_safe [OF lim, of cfg EOF_char 0 "ftell f" EOF_char ch f2]
  obtain x f3 where x: "fcopy_value cfg (size_dec C) (ftell f) EOF_char EOF_char 0 ch f2 dest
                          = Done (x, f3)"
    by auto
  show ?thesis
  proof (cases x)
    case (Returned n d)
    with x u fcopy_value_Done [OF x] assms show ?thesis
      by (auto simp: kv_parse_get_value_def size_dec_def)
  next
    case (Exhausted d)
    with fcopy_value_Done [OF x] assms have "length d = C" "d \<noteq> []" by auto
    with x u Exhausted show ?thesis
      by (auto simp: kv_parse_get_value_def too_large_ok)
  qed
qed

lemma buffer_check_section_in_bounds:
  assumes "1 \<le> C" and "length dest = C"
    and "\<exists>c\<in>set (takeWhile (\<lambda>c. c \<noteq> NUL \<and> c \<noteq> CR \<and> c \<noteq> LF) (tl str)). \<not> is_blank c"
  shows "\<exists>n d. kv_parse_buffer_check_section str dest C = Done (n, d) \<and> length d = C \<and> n \<le> C - 1"
proof (cases "deref str \<noteq> CHR ''[''")
  case True
  with assms show ?thesis by (simp add: kv_parse_buffer_check_section_def)
next
  case False
  have lim: "size_dec C < length dest" using assms by (simp add: size_dec_less)
  from copy_section_safe [OF lim, of 0 "tl str"] assms(3)
  obtain x where x: "copy_section (size_dec C) 0 (tl str) dest = Done x" by blast
  show ?thesis
  proof (cases x)
    case (Returned n d)
    with x False copy_section_Done [OF x] assms show ?thesis
      by (auto simp: kv_parse_buffer_check_section_def size_dec_def)
  next
    case (Exhausted d)
    with copy_section_Done [OF x] assms have "length d = C" "d \<noteq> []" by auto
    with x False Exhausted show ?thesis
      by (auto simp: kv_parse_buffer_check_section_def too_large_ok)
  qed
qed


lemma stream_check_section_unfold:
  obtains (other) f1 where "fst (getc f) \<noteq> Some (CHR ''['')"
      "kv_parse_check_section f dest C = Done ((0, dest), fseek f1 (ftell f))"
  | (bracket) ch1 f2 where "fst (getc f) = Some (CHR ''['')"
      "ahead ch1 f2 = tl (pending f)"
      "kv_parse_check_section f dest C =
         (case fcopy_section (size_dec C) (ftell f) 0 ch1 f2 dest of
            Fault e \<Rightarrow> Fault e
          | Done (Returned n section', f3) \<Rightarrow> Done ((n, section'), f3)
          | Done (Exhausted section', f3) \<Rightarrow>
              (case too_large section' of
                 Fault e \<Rightarrow> Fault e
               | Done r \<Rightarrow> Done (r, fseek f3 (ftell f))))"
proof -
  obtain ch f1 where g: "getc f = (ch, f1)" by (cases "getc f")
  show ?thesis
  proof (cases "ch = Some (CHR ''['')")
    case False
    with g show ?thesis by (intro other [of f1]) (simp_all add: kv_parse_check_section_def)
  next
    case True
    obtain ch1 f2 where g1: "getc f1 = (ch1, f2)" by (cases "getc f1")
    have "pending f = CHR ''['' # pending f1"
      using getc_ahead(1) [OF g] True by (simp add: ahead_def)
    then have "ahead ch1 f2 = tl (pending f)" using getc_ahead(1) [OF g1] by simp
    with g g1 True show ?thesis
      by (intro bracket [of ch1 f2]) (simp_all add: kv_parse_check_section_def Let_def)
  qed
qed

lemma stream_check_section_in_bounds:
  assumes "1 \<le> C" and "length dest = C"
    and "\<exists>c\<in>set (takeWhile (\<lambda>c. c \<noteq> CR \<and> c \<noteq> LF) (tl (pending f))). \<not> is_blank c"
  shows "\<exists>n d f'. kv_parse_check_section f dest C = Done ((n, d), f') \<and> length d = C
           \<and> n \<le> C - 1"
proof (cases rule: stream_check_section_unfold [of f dest C])
  case (other f1)
  with assms show ?thesis by simp
next
  case (bracket ch1 f2)
  have lim: "size_dec C < length dest" using assms by (simp add: size_dec_less)
  from fcopy_section_safe [OF lim, of 0 ch1 f2 "ftell f"] assms(3) bracket(2)
  obtain x f3 where x: "fcopy_section (size_dec C) (ftell f) 0 ch1 f2 dest = Done (x, f3)"
    by auto
  show ?thesis
  proof (cases x)
    case (Returned n d)
    with x bracket fcopy_section_Done [OF x] assms show ?thesis
      by (auto simp: size_dec_def)
  next
    case (Exhausted d)
    with fcopy_section_Done [OF x] assms have "length d = C" "d \<noteq> []" by auto
    with x bracket Exhausted show ?thesis by (auto simp: too_large_ok)
  qed
qed

lemma pushed_fseek: "0 \<le> off \<Longrightarrow> pushed (fseek f off) = None"
  by (simp add: fseek_def)

lemma fcopy_section_Returned_file:
  "fcopy_section lim start i ch f section = Done (Returned n d, f') \<Longrightarrow> \<exists>g. f' = fseek g start"
proof (induction lim start i ch f "section" rule: fcopy_section.induct)
  case (1 lim start i ch f s)
  note r = "1.prems" [unfolded fcopy_section.simps [of lim start i ch f s]]
  obtain c1 f1 where g: "(c1, f1) = getc f" by (cases "getc f") auto
  show ?case
  proof (cases "i < lim \<and> (\<exists>c. ch = Some c \<and> \<not> (c = CR \<or> c = LF))")
    case False
    with r show ?thesis by (auto split: if_splits option.splits run.splits)
  next
    case True
    then obtain c where lt: "i < lim" and ch: "ch = Some c" and neol: "\<not> (c = CR \<or> c = LF)"
      by blast
    with r g [symmetric] obtain s' where
      w: "wr s (int i) c = Done s'" and
      rr: "fcopy_section lim start (Suc i) c1 f1 s' = Done (Returned n d, f')"
      by (auto split: run.splits)
    from "1.IH" [OF lt ch neol w g rr] show ?thesis .
  qed
qed

lemma buffer_get_value_zero:
  assumes "kv_parse_buffer_get_value cfg str dest C = Done (0, d)"
  shows "take 1 d = [NUL]"
proof -
  from assms obtain x where x: "buffer_value_scan cfg str dest C = Done x"
    by (auto simp: kv_parse_buffer_get_value_def split: run.splits)
  show ?thesis
  proof (cases x)
    case (Returned n v)
    with x assms copy_value_Done [OF x [unfolded buffer_value_scan_def]] show ?thesis
      by (auto simp: kv_parse_buffer_get_value_def take1_NUL)
  next
    case (Exhausted v)
    with x assms have "too_large v = Done (0, d)" by (simp add: kv_parse_buffer_get_value_def)
    from too_large_Done [OF this] show ?thesis by (cases v) auto
  qed
qed

lemma buffer_get_value_exhausted:
  assumes "buffer_value_scan cfg str dest C = Done (Exhausted v)" and "dest \<noteq> []"
  shows "\<exists>d. kv_parse_buffer_get_value cfg str dest C = Done (0, d) \<and> take 1 d = [NUL]"
proof -
  from copy_value_Done [OF assms(1) [unfolded buffer_value_scan_def]] assms(2)
  have "v \<noteq> []" by auto
  then have "too_large v = Done (0, v[0 := NUL])" "take 1 (v[0 := NUL]) = [NUL]"
    by (simp add: too_large_ok, cases v) auto
  with assms(1) show ?thesis by (simp add: kv_parse_buffer_get_value_def)
qed

lemma stream_get_value_zero:
  assumes "kv_parse_get_value cfg f dest C = Done ((0, d), g)"
  shows "take 1 d = [NUL]"
proof -
  from stream_value_scan_unfold [of cfg f dest C] obtain ch f2 where
    u: "stream_value_scan cfg f dest C =
          fcopy_value cfg (size_dec C) (ftell f) EOF_char EOF_char 0 ch f2 dest"
    by blast
  from assms obtain x f3 where x: "stream_value_scan cfg f dest C = Done (x, f3)"
    by (auto simp: kv_parse_get_value_def split: run.splits)
  show ?thesis
  proof (cases x)
    case (Returned n v)
    with x assms fcopy_value_Done [OF x [unfolded u]] show ?thesis
      by (auto simp: kv_parse_get_value_def take1_NUL)
  next
    case (Exhausted v)
    with x assms have "\<exists>r. too_large v = Done r \<and> fst r = 0 \<and> snd r = d"
      by (auto simp: kv_parse_get_value_def split: run.splits)
    then show ?thesis by (cases v) (auto dest!: too_large_Done)
  qed
qed

lemma stream_get_value_exhausted:
  assumes "stream_value_scan cfg f dest C = Done (Exhausted v, f3)" and "dest \<noteq> []"
    and "0 \<le> ftell f"
  shows "\<exists>d g. kv_parse_get_value cfg f dest C = Done ((0, d), g) \<and> take 1 d = [NUL]
           \<and> ftell g = ftell f \<and> pushed g = None"
proof -
  from stream_value_scan_unfold [of cfg f dest C] obtain ch f2 where
    u: "stream_value_scan cfg f dest C =
          fcopy_value cfg (size_dec C) (ftell f) EOF_char EOF_char 0 ch f2 dest"
    by blast
  from fcopy_value_Done [OF assms(1) [unfolded u]] assms(2) have "v \<noteq> []" by auto
  then have "too_large v = Done (0, v[0 := NUL])" "take 1 (v[0 := NUL]) = [NUL]"
    by (simp add: too_large_ok, cases v) auto
  with assms(1,3) show ?thesis
    by (simp add: kv_parse_get_value_def ftell_fseek pushed_fseek)
qed

lemma buffer_check_section_zero:
  assumes "deref str = CHR ''[''" and "kv_parse_buffer_check_section str dest C = Done (0, d)"
  shows "take 1 d = [NUL]"
proof -
  from assms obtain x where x: "copy_section (size_dec C) 0 (tl str) dest = Done x"
    by (auto simp: kv_parse_buffer_check_section_def split: run.splits)
  show ?thesis
  proof (cases x)
    case (Returned n v)
    with x assms copy_section_Done [OF x] show ?thesis
      by (auto simp: kv_parse_buffer_check_section_def take1_NUL)
  next
    case (Exhausted v)
    with x assms have "too_large v = Done (0, d)"
      by (simp add: kv_parse_buffer_check_section_def)
    from too_large_Done [OF this] show ?thesis by (cases v) auto
  qed
qed

lemma stream_check_section_zero:
  assumes "fst (getc f) = Some (CHR ''['')"
    and "kv_parse_check_section f dest C = Done ((0, d), g)"
  shows "take 1 d = [NUL]"
proof (cases rule: stream_check_section_unfold [of f dest C])
  case (other f1)
  with assms show ?thesis by simp
next
  case (bracket ch1 f2)
  with assms(2) obtain x f3 where
    x: "fcopy_section (size_dec C) (ftell f) 0 ch1 f2 dest = Done (x, f3)"
    by (auto split: run.splits)
  show ?thesis
  proof (cases x)
    case (Returned n v)
    with x assms(2) bracket fcopy_section_Done [OF x] show ?thesis
      by (auto simp: take1_NUL)
  next
    case (Exhausted v)
    with x assms(2) bracket have "\<exists>r. too_large v = Done r \<and> fst r = 0 \<and> snd r = d"
      by (auto split: run.splits)
    then show ?thesis by (cases v) (auto dest!: too_large_Done)
  qed
qed

lemma stream_check_section_restores:
  assumes "kv_parse_check_section f dest C = Done (r, g)" and "0 \<le> ftell f"
  shows "ftell g = ftell f \<and> pushed g = None"
proof (cases rule: stream_check_section_unfold [of f dest C])
  case (other f1)
  with assms show ?thesis by (auto simp: ftell_fseek pushed_fseek)
next
  case (bracket ch1 f2)
  with assms(1) obtain x f3 where
    x: "fcopy_section (size_dec C) (ftell f) 0 ch1 f2 dest = Done (x, f3)"
    by (auto split: run.splits)
  show ?thesis
  proof (cases x)
    case (Returned n v)
    with x assms(1) bracket have "g = f3" by simp
    with fcopy_section_Returned_file [OF x [unfolded Returned]] assms(2) show ?thesis
      by (auto simp: ftell_fseek pushed_fseek)
  next
    case (Exhausted v)
    with x assms(1) bracket have "g = fseek f3 (ftell f)" by (auto split: run.splits)
    with assms(2) show ?thesis by (simp add: ftell_fseek pushed_fseek)
  qed
qed

lemma stream_check_section_other:
  assumes "fst (getc f) \<noteq> Some (CHR ''['')" and "0 \<le> ftell f"
  shows "\<exists>g. kv_parse_check_section f dest C = Done ((0, dest), g) \<and> ftell g = ftell f
           \<and> pushed g = None"
proof (cases rule: stream_check_section_unfold [of f dest C])
  case (other f1)
  with assms show ?thesis by (simp add: ftell_fseek pushed_fseek)
next
  case (bracket ch1 f2)
  with assms show ?thesis by simp
qed



subsection \<open>The stream engine against the buffer engine\<close>

lemma plain_Cons: "plain (c # s) \<longleftrightarrow> c \<noteq> NUL \<and> c \<noteq> EOF_char \<and> plain s"
  by (auto simp: plain_def)

lemma plain_dropWhile: "plain s \<Longrightarrow> plain (dropWhile P s)"
  by (auto simp: plain_def dest: set_dropWhileD)

lemma sees_plain_cases:
  assumes "sees ch f s" and "plain s"
  obtains (eof) "s = []" "ch = EOF_char" "pending f = []"
  | (byte) rest where "s = ch # rest" "pending f = rest" "ch \<noteq> NUL" "ch \<noteq> EOF_char" "plain rest"
  using assms by (cases s) (auto simp: sees_def plain_def)

lemma pending_ungetc: "pushed f = None \<Longrightarrow> pending (ungetc c f) = c # pending f"
  by (simp add: pending_def ungetc_def)

lemma fscan_next_line_scan:
  "sees ch f s \<Longrightarrow> plain s \<Longrightarrow>
     (case fscan_next_line ch f of (b, f') \<Rightarrow> if b then Some (pending f') else None)
       = scan_next_line s"
proof (induction s arbitrary: ch f)
  case Nil
  then have "ch = EOF_char" by (simp add: sees_Nil)
  then show ?case by (subst fscan_next_line.simps) simp
next
  case (Cons c s)
  from Cons.prems have ch: "ch = c" and p: "pending f = s" and c: "c \<noteq> NUL" "c \<noteq> EOF_char"
    and pl: "plain s"
    using sees_Cons [of ch f c s] by (simp_all add: plain_Cons)
  obtain c1 f1 where g: "getc_char f = (c1, f1)" by (cases "getc_char f")
  have s1: "sees c1 f1 s" and pu: "pushed f1 = None" using getc_char_sees [OF g] p by simp_all
  show ?case
  proof (cases "c = LF")
    case True
    from s1 pl show ?thesis
    proof (cases rule: sees_plain_cases)
      case eof
      with True ch c g show ?thesis by (subst fscan_next_line.simps) simp
    next
      case (byte rest)
      with True ch c g pu show ?thesis
        by (subst fscan_next_line.simps) (simp add: pending_ungetc)
    qed
  next
    case False
    with ch c g Cons.IH [OF s1 pl] show ?thesis
      by (subst fscan_next_line.simps) simp
  qed
qed

lemma next_line_agree:
  assumes "plain (pending f)"
  shows "(case kv_parse_next_line f n of (b, f') \<Rightarrow> if b then Some (pending f') else None)
           = kv_parse_buffer_next_line (pending f) n"
proof (cases "n = 0")
  case True
  then show ?thesis by (simp add: kv_parse_next_line_def kv_parse_buffer_next_line_def)
next
  case False
  obtain c f1 where g: "getc_char f = (c, f1)" by (cases "getc_char f")
  from fscan_next_line_scan [OF getc_char_sees(1) [OF g] assms] False g show ?thesis
    by (simp add: kv_parse_next_line_def kv_parse_buffer_next_line_def)
qed

lemma fmatch_key_match:
  "sees ch f s \<Longrightarrow> plain s \<Longrightarrow>
     (case match_key s key of
        None \<Rightarrow> \<exists>g. fmatch_key ch f key = Mismatch g
      | Some s' \<Rightarrow> \<exists>ch' f'. fmatch_key ch f key = Compared ch' f' \<and> sees ch' f' s' \<and> plain s')"
proof (induction key arbitrary: ch f s)
  case Nil
  then show ?case by simp
next
  case (Cons k key)
  from Cons.prems show ?case
  proof (cases rule: sees_plain_cases)
    case eof
    with Cons.prems show ?thesis by simp
  next
    case (byte rest)
    obtain c1 f1 where g: "getc_char f = (c1, f1)" by (cases "getc_char f")
    have s1: "sees c1 f1 rest" using getc_char_sees(1) [OF g] byte by simp
    show ?thesis
    proof (cases "k = NUL")
      case True
      with byte Cons.prems show ?thesis by simp
    next
      case kn: False
      show ?thesis
      proof (cases "ch = k")
        case False
        with kn byte show ?thesis by simp
      next
        case True
        with kn byte g have e: "fmatch_key ch f (k # key) = fmatch_key c1 f1 key"
          "match_key s (k # key) = match_key rest key"
          by simp_all
        show ?thesis unfolding e by (rule Cons.IH [OF s1 byte(5)])
      qed
    qed
  qed
qed


lemma check_key_agree:
  assumes "plain (pending f)"
  shows "(case kv_parse_check_key cfg f key of (b, f') \<Rightarrow> if b then Some (pending f') else None)
           = kv_parse_buffer_check_key cfg (pending f) key"
proof -
  obtain c0 f0 where g: "getc_char f = (c0, f0)" by (cases "getc_char f")
  have s0: "sees c0 f0 (pending f)" using getc_char_sees(1) [OF g] .
  obtain c1 f1 where sk1: "(if whitespace_skip cfg then fskip_blanks c0 f0 else (c0, f0)) = (c1, f1)"
    by (cases "if whitespace_skip cfg then fskip_blanks c0 f0 else (c0, f0)")
  let ?s1 = "if whitespace_skip cfg then skip_blanks (pending f) else pending f"
  have s1: "sees c1 f1 ?s1" and p1: "plain ?s1"
    using sk1 s0 assms fskip_blanks_sees [of c0 f0 "pending f" c1 f1]
    by (auto simp: skip_blanks_eq plain_dropWhile split: if_splits)
  show ?thesis
  proof (cases "match_key ?s1 key")
    case None
    with fmatch_key_match [OF s1 p1, of key] obtain g' where "fmatch_key c1 f1 key = Mismatch g'"
      by auto
    with None g sk1 show ?thesis
      by (simp add: kv_parse_check_key_def kv_parse_buffer_check_key_def)
  next
    case (Some s2)
    with fmatch_key_match [OF s1 p1, of key] obtain c2 f2 where
      m: "fmatch_key c1 f1 key = Compared c2 f2" and s2: "sees c2 f2 s2" and p2: "plain s2"
      by auto
    obtain c3 f3 where
      sk2: "(if whitespace_skip cfg then fskip_blanks c2 f2 else (c2, f2)) = (c3, f3)"
      by (cases "if whitespace_skip cfg then fskip_blanks c2 f2 else (c2, f2)")
    let ?s3 = "if whitespace_skip cfg then skip_blanks s2 else s2"
    have s3: "sees c3 f3 ?s3"
      using sk2 s2 fskip_blanks_sees [of c2 f2 s2 c3 f3]
      by (auto simp: skip_blanks_eq split: if_splits)
    have d: "is_delimiter c3 = is_delimiter (deref ?s3)" using sees_delimiter [OF s3] .
    have r: "kv_parse_check_key cfg f key =
               (if is_delimiter c3 then (True, f3) else (False, fseek f3 (ftell f)))"
      using g sk1 m sk2 by (simp add: kv_parse_check_key_def is_delimiter_def)
    have b: "kv_parse_buffer_check_key cfg (pending f) key =
               (if is_delimiter (deref ?s3) then Some (tl ?s3) else None)"
      using Some by (simp add: kv_parse_buffer_check_key_def is_delimiter_def Let_def)
    show ?thesis
    proof (cases "is_delimiter c3")
      case False
      with r b d show ?thesis by simp
    next
      case True
      then have "c3 \<noteq> EOF_char" by (auto simp: is_delimiter_def)
      with s3 have "?s3 = c3 # pending f3" by (auto simp: sees_def)
      then have "tl ?s3 = pending f3" by simp
      with True r b d show ?thesis by simp
    qed
  qed
qed


lemma result_of_Done_case:
  "result_of (case r of Fault e \<Rightarrow> Fault e | Done x \<Rightarrow> Done (x, g)) = r"
  by (cases r) auto

lemma fcopy_value_copy_value:
  "sees ch f s \<Longrightarrow> plain s \<Longrightarrow>
   (qs = EOF_char \<and> qb = NUL) \<or> (qs = qb \<and> qs \<noteq> EOF_char \<and> qb \<noteq> NUL) \<Longrightarrow>
   (ps = BACKSLASH \<longleftrightarrow> pb = BACKSLASH) \<Longrightarrow>
   result_of (fcopy_value cfg lim start qs ps i ch f v) = copy_value cfg lim qb pb i s v"
proof (induction s arbitrary: ch f qs qb ps pb i v)
  case Nil
  then have "ch = EOF_char" by (simp add: sees_Nil)
  then show ?case by (subst fcopy_value.simps) (simp add: result_of_Done_case)
next
  case (Cons c s)
  from Cons.prems(1,2) have ch: "ch = c" and p: "pending f = s" and c: "c \<noteq> NUL" "c \<noteq> EOF_char"
    and pl: "plain s"
    using sees_Cons [of ch f c s] by (simp_all add: plain_Cons)
  obtain c1 f1 where g: "getc_char f = (c1, f1)" by (cases "getc_char f")
  have s1: "sees c1 f1 s" using getc_char_sees(1) [OF g] p by simp
  note IH = Cons.IH [OF s1 pl]
  note q = Cons.prems(3) and pr = Cons.prems(4)
  show ?case
  proof (cases "i < lim")
    case False
    then show ?thesis by (subst fcopy_value.simps) simp
  next
    case lt: True
    show ?thesis
    proof (cases "c = CR \<or> c = LF")
      case True
      with lt ch c show ?thesis
        by (subst fcopy_value.simps) (auto simp: result_of_Done_case)
    next
      case neol: False
      show ?thesis
      proof (cases "quoted_strings cfg")
        case False
        have "result_of (fcopy_value cfg lim start qs ps (Suc i) c1 f1 v')
                = copy_value cfg lim qb pb (Suc i) s v'" for v'
          by (rule IH [OF q pr])
        with False lt neol ch c g show ?thesis
          by (subst fcopy_value.simps) (auto split: run.splits)
      next
        case qt: True
        show ?thesis
        proof (cases "qs = EOF_char")
          case none: True
          with q have qb: "qb = NUL" by auto
          show ?thesis
          proof (cases "c = SQUOTE \<or> c = DQUOTE")
            case True
            have "result_of (fcopy_value cfg lim start c ps i c1 f1 v)
                    = copy_value cfg lim c pb i s v"
              using c by (intro IH [OF _ pr]) simp
            with True qt none qb lt neol ch c g show ?thesis
              by (subst fcopy_value.simps) auto
          next
            case False
            have "result_of (fcopy_value cfg lim start qs c (Suc i) c1 f1 v')
                    = copy_value cfg lim qb c (Suc i) s v'" for v'
              by (rule IH [OF q]) simp
            with False qt none qb lt neol ch c g show ?thesis
              by (subst fcopy_value.simps) (auto split: run.splits)
          qed
        next
          case some: False
          with q have qe: "qs = qb" "qb \<noteq> NUL" by auto
          show ?thesis
          proof (cases "c = qb")
            case False
            have "result_of (fcopy_value cfg lim start qs c (Suc i) c1 f1 v')
                    = copy_value cfg lim qb c (Suc i) s v'" for v'
              by (rule IH [OF q]) simp
            with False qt some qe lt neol ch c g show ?thesis
              by (subst fcopy_value.simps) (auto split: run.splits)
          next
            case same: True
            show ?thesis
            proof (cases "ps = BACKSLASH")
              case False
              with pr have "pb \<noteq> BACKSLASH" by simp
              with False same qt some qe lt neol ch c show ?thesis
                by (subst fcopy_value.simps) (auto split: run.splits)
            next
              case True
              with pr have pb: "pb = BACKSLASH" by simp
              have "result_of (fcopy_value cfg lim start qs ps i c1 f1 v')
                      = copy_value cfg lim qb pb i s v'" for v'
                by (rule IH [OF q pr])
              with True pb same qt some qe lt neol ch c g show ?thesis
                by (subst fcopy_value.simps) (auto split: run.splits)
            qed
          qed
        qed
      qed
    qed
  qed
qed

lemma get_value_agree:
  assumes "plain (pending f)"
  shows "result_of (kv_parse_get_value cfg f dest C)
           = kv_parse_buffer_get_value cfg (pending f) dest C"
proof -
  obtain c0 f0 where g: "getc_char f = (c0, f0)" by (cases "getc_char f")
  have s0: "sees c0 f0 (pending f)" using getc_char_sees(1) [OF g] .
  obtain c1 f1 where sk1: "(if whitespace_skip cfg then fskip_blanks c0 f0 else (c0, f0)) = (c1, f1)"
    by (cases "if whitespace_skip cfg then fskip_blanks c0 f0 else (c0, f0)")
  let ?s1 = "if whitespace_skip cfg then skip_blanks (pending f) else pending f"
  have s1: "sees c1 f1 ?s1" and p1: "plain ?s1"
    using sk1 s0 assms fskip_blanks_sees [of c0 f0 "pending f" c1 f1]
    by (auto simp: skip_blanks_eq plain_dropWhile split: if_splits)
  have scan: "stream_value_scan cfg f dest C
                = fcopy_value cfg (size_dec C) (ftell f) EOF_char EOF_char 0 c1 f1 dest"
    using g sk1 by (simp add: stream_value_scan_def)
  have e: "result_of (stream_value_scan cfg f dest C) = buffer_value_scan cfg (pending f) dest C"
    unfolding scan buffer_value_scan_def
    by (rule fcopy_value_copy_value [OF s1 p1]) simp_all
  show ?thesis
  proof (cases "stream_value_scan cfg f dest C")
    case (Fault x)
    with e have "buffer_value_scan cfg (pending f) dest C = Fault x" by simp
    with Fault show ?thesis
      by (simp add: kv_parse_get_value_def kv_parse_buffer_get_value_def)
  next
    case (Done y)
    obtain x f3 where y: "y = (x, f3)" by (cases y)
    with Done e have b: "buffer_value_scan cfg (pending f) dest C = Done x" by simp
    show ?thesis
      using Done y b
      by (cases x; cases "too_large (case x of Returned n d \<Rightarrow> d | Exhausted d \<Rightarrow> d)")
         (auto simp: kv_parse_get_value_def kv_parse_buffer_get_value_def)
  qed
qed


lemma fcopy_section_copy_section:
  "ahead ch f = s \<Longrightarrow> NUL \<notin> set s \<Longrightarrow>
     result_of (fcopy_section lim start i ch f sec) = copy_section lim i s sec"
proof (induction s arbitrary: ch f i sec)
  case Nil
  then have "ch = None" by (cases ch) (auto simp: ahead_def)
  then show ?case by (subst fcopy_section.simps) (simp add: result_of_Done_case)
next
  case (Cons c s)
  then have ch: "ch = Some c" and p: "pending f = s" and c: "c \<noteq> NUL" and n: "NUL \<notin> set s"
    by (cases ch; auto simp: ahead_def)+
  obtain c1 f1 where g: "getc f = (c1, f1)" by (cases "getc f")
  have "ahead c1 f1 = s" using getc_ahead(1) [OF g] p by simp
  note IH = Cons.IH [OF this n]
  show ?case
  proof (cases "i < lim")
    case False
    then show ?thesis by (subst fcopy_section.simps) simp
  next
    case lt: True
    show ?thesis
    proof (cases "c = CR \<or> c = LF")
      case True
      with lt ch c show ?thesis
        by (subst fcopy_section.simps) (auto simp: result_of_Done_case)
    next
      case False
      with lt ch c g IH show ?thesis
        by (subst fcopy_section.simps) (auto split: run.splits)
    qed
  qed
qed

lemma deref_pending:
  "deref (pending f) = (case fst (getc f) of None \<Rightarrow> NUL | Some c \<Rightarrow> c)"
  by (auto simp: getc_def pending_def Cons_nth_drop_Suc [symmetric] split: option.splits)

lemma check_section_agree:
  assumes "NUL \<notin> set (pending f)"
  shows "result_of (kv_parse_check_section f dest C)
           = kv_parse_buffer_check_section (pending f) dest C"
proof (cases rule: stream_check_section_unfold [of f dest C])
  case (other f1)
  then have "deref (pending f) \<noteq> CHR ''[''"
    by (cases "fst (getc f)") (auto simp: deref_pending)
  with other show ?thesis by (simp add: kv_parse_buffer_check_section_def)
next
  case (bracket ch1 f2)
  have d: "deref (pending f) = CHR ''[''" using bracket(1) by (simp add: deref_pending)
  have "NUL \<notin> set (tl (pending f))" using assms by (cases "pending f") auto
  from fcopy_section_copy_section [OF bracket(2) this, of "size_dec C" "ftell f" 0 dest]
  have e: "result_of (fcopy_section (size_dec C) (ftell f) 0 ch1 f2 dest)
             = copy_section (size_dec C) 0 (tl (pending f)) dest" .
  show ?thesis
  proof (cases "fcopy_section (size_dec C) (ftell f) 0 ch1 f2 dest")
    case (Fault x)
    with e have "copy_section (size_dec C) 0 (tl (pending f)) dest = Fault x" by simp
    with Fault bracket d show ?thesis by (simp add: kv_parse_buffer_check_section_def)
  next
    case (Done y)
    obtain x f3 where y: "y = (x, f3)" by (cases y)
    with Done e have b: "copy_section (size_dec C) 0 (tl (pending f)) dest = Done x" by simp
    show ?thesis
      using Done y b bracket d
      by (cases x; cases "too_large (case x of Returned n d \<Rightarrow> d | Exhausted d \<Rightarrow> d)")
         (auto simp: kv_parse_buffer_check_section_def)
  qed
qed


text \<open>A destination of 17 bytes or more, byte by byte.\<close>

lemma destination_17:
  assumes "17 \<le> length (dest :: string)"
  obtains x0 x1 x2 x3 x4 x5 x6 x7 x8 x9 x10 x11 x12 x13 x14 x15 x16 rest
  where "dest = x0 # x1 # x2 # x3 # x4 # x5 # x6 # x7 # x8 # x9 # x10 # x11 # x12 # x13
                  # x14 # x15 # x16 # rest"
proof -
  from assms have "\<exists>x0 x1 x2 x3 x4 x5 x6 x7 x8 x9 x10 x11 x12 x13 x14 x15 x16 rest.
     dest = x0 # x1 # x2 # x3 # x4 # x5 # x6 # x7 # x8 # x9 # x10 # x11 # x12 # x13
                  # x14 # x15 # x16 # rest"
    by (simp add: eval_nat_numeral Suc_le_length_iff) blast
  then show ?thesis using that by blast
qed

subsection \<open>The caller's loops over both engines\<close>

lemmas loop_defs = kv_parse_def kv_parse_from.simps rewind_def kv_parse_buffer_def
  kv_parse_buffer_from.simps

lemma match_key_not_prefix:
  "NUL \<notin> set key \<Longrightarrow> take (length key) s \<noteq> key \<Longrightarrow>
     match_key s key = None \<or> (\<exists>r. match_key s key = Some r \<and> deref r = NUL)"
proof (induction key arbitrary: s)
  case Nil
  then show ?case by simp
next
  case (Cons k key)
  show ?case
  proof (cases s)
    case Nil
    then show ?thesis by simp
  next
    case (Cons c s')
    with Cons.prems Cons.IH [of s'] show ?thesis by auto
  qed
qed

lemma check_key_buffer_text:
  assumes "NUL \<notin> set key"
  shows "kv_parse_buffer_check_key cfg l key = key_on_line cfg key l"
proof (cases "take (length key) (after_blanks cfg l) = key")
  case True
  then have e: "after_blanks cfg l = key @ drop (length key) (after_blanks cfg l)"
    by (metis append_take_drop_id)
  have t: "takeWhile (\<lambda>k. k \<noteq> NUL) key = key" using assms by (auto simp: takeWhile_eq_all_conv)
  show ?thesis
    using check_key_buffer_general [OF e] True
    by (cases "after_blanks cfg (drop (length key) (after_blanks cfg l))")
       (simp_all add: key_on_line_def t Let_def is_delimiter_def)
next
  case False
  let ?s = "if whitespace_skip cfg then skip_blanks l else l"
  have s: "?s = after_blanks cfg l" by (simp add: after_blanks_def skip_blanks_eq)
  from match_key_not_prefix [OF assms, of ?s] False s
  consider "match_key ?s key = None" | r where "match_key ?s key = Some r" "deref r = NUL"
    by auto
  then have "kv_parse_buffer_check_key cfg l key = None"
  proof cases
    case 1
    then show ?thesis by (simp add: kv_parse_buffer_check_key_def)
  next
    case 2
    then have "skip_blanks r = r" by (cases r) auto
    with 2 show ?thesis by (simp add: kv_parse_buffer_check_key_def)
  qed
  with False show ?thesis by (simp add: key_on_line_def Let_def)
qed

lemma scan_next_line_set: "scan_next_line s = Some s' \<Longrightarrow> set s' \<subseteq> set s"
  by (induction s) (auto split: if_splits)

lemma match_key_set: "match_key s key = Some r \<Longrightarrow> set r \<subseteq> set s"
proof (induction key arbitrary: s)
  case Nil
  then show ?case by simp
next
  case (Cons k key)
  show ?case
  proof (cases s)
    case Nil
    with Cons.prems show ?thesis by simp
  next
    case (Cons c s')
    with Cons.prems Cons.IH [of s'] show ?thesis by (auto split: if_splits)
  qed
qed

lemma set_tl_subset: "set (tl s) \<subseteq> set s"
  by (cases s) auto

lemma check_key_buffer_set:
  assumes "kv_parse_buffer_check_key cfg s key = Some v"
  shows "set v \<subseteq> set s"
proof -
  let ?s = "if whitespace_skip cfg then skip_blanks s else s"
  from assms obtain r where r: "match_key ?s key = Some r"
    and v: "v = tl (if whitespace_skip cfg then skip_blanks r else r)"
    by (auto simp: kv_parse_buffer_check_key_def Let_def split: option.splits if_splits)
  have "set ?s \<subseteq> set s" by (auto simp: skip_blanks_eq dest: set_dropWhileD)
  moreover have "set r \<subseteq> set ?s" using match_key_set [OF r] .
  moreover have "set (if whitespace_skip cfg then skip_blanks r else r) \<subseteq> set r"
    by (auto simp: skip_blanks_eq dest: set_dropWhileD)
  then have "set v \<subseteq> set r"
    unfolding v using set_tl_subset [of "if whitespace_skip cfg then skip_blanks r else r"]
    by blast
  ultimately show ?thesis by blast
qed

lemma plain_subset: "plain s \<Longrightarrow> set s' \<subseteq> set s \<Longrightarrow> plain s'"
  by (auto simp: plain_def)

lemma fscan_next_line_consistent:
  "fscan_next_line ch f = (True, f') \<Longrightarrow> pushed f = None \<Longrightarrow> consistent f'"
proof (induction ch f rule: fscan_next_line.induct)
  case (1 ch f)
  obtain c1 f1 where g: "getc_char f = (c1, f1)" by (cases "getc_char f")
  from "1.prems" have ne: "ch \<noteq> EOF_char" by (auto simp: fscan_next_line.simps [of ch f])
  have unf: "fscan_next_line ch f =
               (if ch = LF then (if c1 = EOF_char then (False, f1) else (True, ungetc c1 f1))
                else fscan_next_line c1 f1)"
    using ne g by (subst fscan_next_line.simps) simp
  show ?case
  proof (cases "ch = LF")
    case True
    with "1.prems" unf have "c1 \<noteq> EOF_char" and f': "f' = ungetc c1 f1"
      by (auto split: if_splits)
    with g "1.prems"(2) show ?thesis
      by (auto simp: consistent_def ungetc_def getc_char_def getc_def split: if_splits)
  next
    case False
    with "1.prems" unf have "fscan_next_line c1 f1 = (True, f')" by simp
    from "1.IH" [OF ne False g [symmetric] this] getc_char_after(2) [OF g] show ?thesis
      by simp
  qed
qed

lemma next_line_consistent:
  assumes "kv_parse_next_line f line = (True, f')" and "consistent f"
  shows "consistent f'"
proof (cases "line = 0")
  case True
  with assms show ?thesis by (simp add: kv_parse_next_line_def)
next
  case False
  obtain c f1 where g: "getc_char f = (c, f1)" by (cases "getc_char f")
  with assms False have "fscan_next_line c f1 = (True, f')"
    by (simp add: kv_parse_next_line_def)
  from fscan_next_line_consistent [OF this getc_char_after(2) [OF g]] show ?thesis .
qed

lemma drop_before:
  "0 < n \<Longrightarrow> n \<le> length xs \<Longrightarrow> drop (n - Suc 0) xs = xs ! (n - Suc 0) # drop n xs"
  by (cases n) (simp_all add: Cons_nth_drop_Suc)

lemma pending_fseek_ftell:
  assumes "consistent f" and "content g = content f"
  shows "pending (fseek g (ftell f)) = pending f" and "consistent (fseek g (ftell f))"
  using assms
  by (auto simp: consistent_def fseek_def ftell_def pending_def drop_before nat_diff_distrib
           split: option.splits)

lemma check_key_no_match_file:
  assumes "kv_parse_check_key cfg f key = (False, f')"
  shows "\<exists>g. content g = content f \<and> f' = fseek g (ftell f)"
proof -
  obtain c0 f0 where g: "getc_char f = (c0, f0)" by (cases "getc_char f")
  obtain c1 f1 where sk1: "(if whitespace_skip cfg then fskip_blanks c0 f0 else (c0, f0)) = (c1, f1)"
    by (cases "if whitespace_skip cfg then fskip_blanks c0 f0 else (c0, f0)")
  have a1: "content f1 = content f"
    using sk1 getc_char_after [OF g] fskip_blanks_after [of c0 f0 c1 f1]
    by (auto split: if_splits)
  show ?thesis
  proof (cases "fmatch_key c1 f1 key")
    case (Mismatch f3)
    with fmatch_key_after [OF Mismatch] a1 have "content f3 = content f" by auto
    with assms g sk1 Mismatch show ?thesis
      by (auto simp: kv_parse_check_key_def)
  next
    case (Compared c2 f3)
    obtain c3 f4 where sk2: "(if whitespace_skip cfg then fskip_blanks c2 f3 else (c2, f3)) = (c3, f4)"
      by (cases "if whitespace_skip cfg then fskip_blanks c2 f3 else (c2, f3)")
    from fmatch_key_after [OF Compared] a1 have "content f3 = content f" by auto
    with sk2 fskip_blanks_after [of c2 f3 c3 f4]
    have "content f4 = content f" by (auto split: if_splits)
    with assms g sk1 sk2 Compared show ?thesis
      by (auto simp: kv_parse_check_key_def split: if_splits)
  qed
qed

lemma kv_parse_from_agree:
  "consistent f \<Longrightarrow> plain (pending f) \<Longrightarrow>
     result_of (kv_parse_from cfg line f key value value_max)
       = kv_parse_buffer_from cfg line (pending f) key value value_max"
proof (induction cfg line f key "value" value_max rule: kv_parse_from.induct)
  case (1 cfg line f key v value_max)
  obtain b f1 where n: "kv_parse_next_line f line = (b, f1)" by (cases "kv_parse_next_line f line")
  note unf = kv_parse_from.simps [of cfg line f key v value_max]
    kv_parse_buffer_from.simps [of cfg line "pending f" key v value_max]
  from next_line_agree [OF "1.prems"(2), of line] n
  have nb: "kv_parse_buffer_next_line (pending f) line = (if b then Some (pending f1) else None)"
    by simp
  show ?case
  proof (cases b)
    case False
    with n nb show ?thesis unfolding unf by simp
  next
    case True
    with n have n1: "kv_parse_next_line f line = (True, f1)" by simp
    have c1: "consistent f1" using next_line_consistent [OF n1 "1.prems"(1)] .
    have "set (pending f1) \<subseteq> set (pending f)"
      using nb True scan_next_line_set [of "pending f" "pending f1"]
      by (auto simp: kv_parse_buffer_next_line_def split: if_splits)
    then have p1: "plain (pending f1)" using "1.prems"(2) plain_subset by blast
    obtain b2 f2 where k: "kv_parse_check_key cfg f1 key = (b2, f2)"
      by (cases "kv_parse_check_key cfg f1 key")
    from check_key_agree [OF p1, of cfg key] k
    have kb: "kv_parse_buffer_check_key cfg (pending f1) key
                = (if b2 then Some (pending f2) else None)"
      by simp
    show ?thesis
    proof (cases b2)
      case found: True
      with kb have "set (pending f2) \<subseteq> set (pending f1)"
        using check_key_buffer_set [of cfg "pending f1" key "pending f2"] by simp
      then have "plain (pending f2)" using p1 plain_subset by blast
      from get_value_agree [OF this, of cfg v value_max] n1 nb True k kb found show ?thesis
        unfolding unf by simp
    next
      case False
      with k check_key_no_match_file [of cfg f1 key f2]
      obtain g where g: "content g = content f1" "f2 = fseek g (ftell f1)" by auto
      from pending_fseek_ftell [OF c1 g(1)] g(2)
      have p2: "pending f2 = pending f1" and c2: "consistent f2" by simp_all
      from p2 p1 have "plain (pending f2)" by simp
      from "1.IH" [OF n1 [symmetric] _ k [symmetric] _ c2 this] False p2
      have "result_of (kv_parse_from cfg (Suc line) f2 key v value_max)
              = kv_parse_buffer_from cfg (Suc line) (pending f1) key v value_max"
        by simp
      with n1 nb True k kb False show ?thesis unfolding unf by simp
    qed
  qed
qed

section \<open>Capacity: the boundary of \<^verbatim>\<open>get_value\<close>\<close>

text \<open>
  C1. The claim: with a destination of capacity \<open>C \<ge> 1\<close>, \<^verbatim>\<open>get_value\<close> (either engine)
  fails exactly when the value needs \<open>C\<close> or more bytes, and a value of exactly
  \<open>C - 1\<close> bytes succeeds and is returned whole.
  The code does not do that: the loop header tests \<^verbatim>\<open>i < (value_max - 1)\<close> before the
  body looks for the end of the line, so after the byte number \<open>C - 1\<close> has been
  copied the loop is left and the value is discarded. With \<open>C = 4\<close> the three-byte
  value \<^verbatim>\<open>abc\<close> comes back as length 0 with an empty destination, in both engines
  and under every configuration (the stream is left at the start of the value);
  the longest value that is returned has \<open>C - 2 = 2\<close> bytes.
\<close>

theorem get_value_rejects_capacity_minus_one:
  "kv_parse_buffer_get_value cfg ''abc'' [x0, x1, x2, x3] 4
     = Done (0, [NUL, CHR ''b'', CHR ''c'', x3])
   \<and> kv_parse_get_value cfg \<lparr>content = ''k=abc'', offset = 2, pushed = None\<rparr>
         [x0, x1, x2, x3] 4
     = Done ((0, [NUL, CHR ''b'', CHR ''c'', x3]),
             \<lparr>content = ''k=abc'', offset = 2, pushed = None\<rparr>)
   \<and> kv_parse_buffer_get_value cfg ''ab'' [x0, x1, x2, x3] 4
     = Done (2, [CHR ''a'', CHR ''b'', NUL, x3])"
  by (cases "whitespace_skip cfg"; cases "quoted_strings cfg")
     (simp_all add: memory_defs buffer_defs stdio_defs stream_defs)

section \<open>The two engines on the byte \<open>0xFF\<close>\<close>

text \<open>
  C3. The claim: on every text without a NUL byte the four operations of the
  stream engine give the same outcome as those of the buffer engine.
  \<^verbatim>\<open>kv_parse_next_line\<close>, \<^verbatim>\<open>kv_parse_check_key\<close> and \<^verbatim>\<open>kv_parse_get_value\<close> keep the
  result of \<^verbatim>\<open>getc\<close> in a \<^verbatim>\<open>char\<close>, so the byte \<open>0xFF\<close> of the input is taken for the
  end of the file, which the buffer engine (and \<^verbatim>\<open>kv_parse_check_section\<close>, with its
  \<^verbatim>\<open>int ch\<close>) does not do. On the three bytes \<open>0xFF\<close>, line feed, \<^verbatim>\<open>b\<close> the buffer
  engine finds a second line and the stream engine reports that there is none.
\<close>

theorem engines_differ_on_byte_255:
  "kv_parse_buffer_next_line [CHR 0xFF, LF, CHR ''b''] 1 = Some ''b''
   \<and> kv_parse_next_line \<lparr>content = [CHR 0xFF, LF, CHR ''b''], offset = 0, pushed = None\<rparr> 1
     = (False, \<lparr>content = [CHR 0xFF, LF, CHR ''b''], offset = 1, pushed = None\<rparr>)"
  by (simp add: buffer_defs stdio_defs stream_defs)

text \<open>
  That byte apart, the engines do agree. On a stream whose unread bytes hold
  neither \<open>0x00\<close> nor \<open>0xFF\<close>, each stream operation gives the outcome of the
  buffer operation on those bytes: \<^verbatim>\<open>next_line\<close> and \<^verbatim>\<open>check_key\<close> succeed together
  and leave the same bytes ahead of the cursor, \<^verbatim>\<open>get_value\<close> and \<^verbatim>\<open>check_section\<close>
  return the same length and the same destination, or stop at the same access out
  of range.
\<close>

theorem engines_agree_without_bytes_0_and_255:
  assumes "NUL \<notin> set (pending f)" and "EOF_char \<notin> set (pending f)"
  shows "(case kv_parse_next_line f n of (b, f') \<Rightarrow> if b then Some (pending f') else None)
           = kv_parse_buffer_next_line (pending f) n
       \<and> (case kv_parse_check_key cfg f key of (b, f') \<Rightarrow> if b then Some (pending f') else None)
           = kv_parse_buffer_check_key cfg (pending f) key
       \<and> result_of (kv_parse_get_value cfg f dest C)
           = kv_parse_buffer_get_value cfg (pending f) dest C
       \<and> result_of (kv_parse_check_section f dest C)
           = kv_parse_buffer_check_section (pending f) dest C"
  using assms next_line_agree [of f n] check_key_agree [of f cfg key]
    get_value_agree [of f cfg dest C] check_section_agree [of f dest C]
  by (simp add: plain_def)

section \<open>Quoted values: the quote after an escaped quote\<close>

text \<open>
  C8. The claim: with quoted strings compiled in, the value is closed at the first
  later occurrence of the opening quote character that is not directly preceded by
  a backslash in the input, also when that occurrence directly follows an escaped
  quote; what follows the closing quote is ignored.
  The escape branch leaves through \<^verbatim>\<open>continue\<close> and so skips \<^verbatim>\<open>prev = ch\<close>: after an
  escaped quote \<^verbatim>\<open>prev\<close> is still the backslash, and a quote that comes next is
  taken for escaped once more. On the value \<^verbatim>\<open>"a\""tail\<close> the second of the two
  adjacent quotes follows a quote, not a backslash, and should close the value as
  \<^verbatim>\<open>a"\<close>; both engines go on and return the six bytes \<^verbatim>\<open>a"tail\<close>.
\<close>

theorem quote_after_escaped_quote_does_not_close:
  "kv_parse_buffer_get_value \<lparr>whitespace_skip = ws, quoted_strings = True\<rparr>
       ([DQUOTE, CHR ''a'', BACKSLASH, DQUOTE, DQUOTE] @ ''tail'')
       [x0, x1, x2, x3, x4, x5, x6, x7] 8
     = Done (6, [CHR ''a'', DQUOTE] @ ''tail'' @ [NUL, x7])
   \<and> kv_parse_get_value \<lparr>whitespace_skip = ws, quoted_strings = True\<rparr>
       \<lparr>content = ''k='' @ [DQUOTE, CHR ''a'', BACKSLASH, DQUOTE, DQUOTE] @ ''tail'',
        offset = 2, pushed = None\<rparr>
       [x0, x1, x2, x3, x4, x5, x6, x7] 8
     = Done ((6, [CHR ''a'', DQUOTE] @ ''tail'' @ [NUL, x7]),
             \<lparr>content = ''k='' @ [DQUOTE, CHR ''a'', BACKSLASH, DQUOTE, DQUOTE] @ ''tail'',
              offset = 2, pushed = None\<rparr>)"
  by (cases ws) (simp_all add: memory_defs buffer_defs stdio_defs stream_defs)

section \<open>Section headers with nothing between the bracket and the end of the line\<close>

text \<open>
  C9. The claim: for every line and every capacity \<open>C \<ge> 1\<close>, \<^verbatim>\<open>check_section\<close>
  (either engine) reads and writes the destination only at the indices \<open>0..C-1\<close>,
  also on a line such as \<^verbatim>\<open>[\<close> followed by a line feed.
  On that line the end-of-line block runs with \<^verbatim>\<open>i = 0\<close> and evaluates
  \<^verbatim>\<open>section[i - 1] != ']'\<close> without a test of \<^verbatim>\<open>i > 0\<close>: with a destination of two
  bytes both engines read the byte before the destination.
\<close>

theorem check_section_reads_before_destination:
  "kv_parse_buffer_check_section [CHR ''['', LF] [x0, x1] 2 = Fault (BadRead (- 1))
   \<and> kv_parse_check_section \<lparr>content = [CHR ''['', LF], offset = 0, pushed = None\<rparr>
         [x0, x1] 2
     = Fault (BadRead (- 1))"
  by (simp add: memory_defs buffer_defs stdio_defs stream_defs)

section \<open>Key matching\<close>

text \<open>
  C7. \<^verbatim>\<open>check_key\<close> reports no match when the key is followed on the line by a byte
  that is not a delimiter. The line is the key (after blanks \<open>pre\<close>, when blanks are
  skipped), then blanks \<open>mid\<close> (none when they are not skipped), then a rest \<open>t\<close>
  whose first byte, the terminator if \<open>t\<close> is empty, is neither \<^verbatim>\<open>=\<close> nor \<^verbatim>\<open>:\<close> (nor
  a blank, when blanks are skipped): so the key may be a proper prefix of a longer
  key token. Then the buffer engine returns \<^verbatim>\<open>NULL\<close>, and the stream engine returns
  false with the stream position back where it was before the call. This holds for
  every key, also one that contains blanks or stop bytes.
\<close>

theorem check_key_needs_delimiter_after_key:
  assumes nd: "\<not> is_delimiter (deref t)"
    and ws: "if whitespace_skip cfg
             then (\<forall>c\<in>set (pre @ mid). is_blank c) \<and> \<not> is_blank (deref t)
             else pre = [] \<and> mid = []"
    and pos: "0 \<le> ftell f"
    and pend: "pending f = pre @ key @ mid @ t"
  shows "kv_parse_buffer_check_key cfg (pre @ key @ mid @ t) key = None
         \<and> \<not> fst (kv_parse_check_key cfg f key)
         \<and> ftell (snd (kv_parse_check_key cfg f key)) = ftell f"
proof -
  have wsm: "if whitespace_skip cfg then (\<forall>c\<in>set mid. is_blank c) \<and> \<not> is_blank (deref t)
             else mid = []"
    using ws by (auto split: if_splits)
  have wse: "if whitespace_skip cfg
             then (\<forall>c\<in>set ([]::string). is_blank c) \<and> \<not> is_blank (deref t)
             else ([]::string) = []"
    using ws by (auto split: if_splits)
  have main: "kv_parse_buffer_check_key cfg (pre @ key @ mid @ t) key = None
              \<and> \<not> fst (kv_parse_check_key cfg f key)"
  proof (cases "whitespace_skip cfg \<and> key \<noteq> [] \<and> is_blank (hd key)")
    case True
    then obtain b key' where k: "key = b # key'" "is_blank b" by (cases key) auto
    with True show ?thesis
      using check_key_buffer_blank_key [of cfg b "pre @ key @ mid @ t" key']
        check_key_stream_blank_key [of cfg b f key']
      by simp
  next
    case False
    show ?thesis
    proof (cases "key = []")
      case True
      have ab: "after_blanks cfg (pre @ key @ mid @ t) = [] @ t"
        using ws True by (auto simp: after_blanks_def dropWhile_append2 dropWhile_blank_id
            split: if_splits)
      have t: "after_blanks cfg t = t"
        using ws by (auto simp: after_blanks_def dropWhile_blank_id split: if_splits)
      have "kv_parse_buffer_check_key cfg (pre @ key @ mid @ t) [] = None"
        using check_key_buffer_general [OF ab] nd t by simp
      moreover have "\<not> fst (kv_parse_check_key cfg f [])"
        using check_key_stream_general [of cfg f "[]" t] ab pend nd t
        by (auto simp: sees_delimiter)
      ultimately show ?thesis using True by simp
    next
      case ne: False
      with False have "\<not> whitespace_skip cfg \<or> \<not> is_blank (hd key)" by simp
      then have ab: "after_blanks cfg (pre @ key @ mid @ t) = key @ (mid @ t)"
        using ws ne by (cases key) (auto simp: after_blanks_def dropWhile_append2 split: if_splits)
      have "\<not> is_delimiter
                (deref (after_blanks cfg
                   (drop (length (takeWhile (\<lambda>k. k \<noteq> NUL) key)) key @ mid @ t)))"
        using drop_takeWhile_cases [of "\<lambda>k. k \<noteq> NUL" key]
        by (intro no_delimiter_after_key [OF _ nd wsm]) auto
      then have "kv_parse_buffer_check_key cfg (pre @ key @ mid @ t) key = None"
        using check_key_buffer_general [OF ab] by (simp add: Let_def)
      moreover
      have "\<not> is_delimiter
                (deref (after_blanks cfg
                   (drop (length (takeWhile (\<lambda>k. k \<noteq> NUL \<and> k \<noteq> EOF_char) key)) key @ mid @ t)))"
        using drop_takeWhile_cases [of "\<lambda>k. k \<noteq> NUL \<and> k \<noteq> EOF_char" key]
        by (intro no_delimiter_after_key [OF _ nd wsm]) auto
      then have "\<not> fst (kv_parse_check_key cfg f key)"
        using check_key_stream_general [of cfg f key "mid @ t"] ab pend
        by (auto simp: sees_delimiter)
      ultimately show ?thesis by simp
    qed
  qed
  with check_key_no_match_restores [OF _ pos] show ?thesis by simp
qed

theorem check_key_needs_delimiter_after_key_witness:
  "kv_parse_buffer_check_key \<lparr>whitespace_skip = True, quoted_strings = True\<rparr> '' ab c=1'' ''ab''
     = None
   \<and> \<not> fst (kv_parse_check_key \<lparr>whitespace_skip = True, quoted_strings = True\<rparr>
              \<lparr>content = '' ab c=1'', offset = 0, pushed = None\<rparr> ''ab'')
   \<and> ftell (snd (kv_parse_check_key \<lparr>whitespace_skip = True, quoted_strings = True\<rparr>
                    \<lparr>content = '' ab c=1'', offset = 0, pushed = None\<rparr> ''ab'')) = 0"
  using check_key_needs_delimiter_after_key
          [of "''c=1''" "\<lparr>whitespace_skip = True, quoted_strings = True\<rparr>" "'' ''" "'' ''"
              "\<lparr>content = '' ab c=1'', offset = 0, pushed = None\<rparr>" "''ab''"]
  by (simp add: ftell_def pending_def is_blank_def is_delimiter_def)

text \<open>
  C10. \<^verbatim>\<open>check_key\<close> with the empty key matches exactly when the first byte of the
  line, after the optional skipping of blanks, is \<^verbatim>\<open>=\<close> or \<^verbatim>\<open>:\<close>, and it then leaves
  the cursor on the byte after that delimiter (the buffer engine returns the pointer
  to it, the stream has exactly the bytes after it left to deliver); otherwise it
  reports no match and the stream position is unchanged. No input is rejected for
  the key being empty.
\<close>

theorem check_key_empty_key:
  assumes "0 \<le> ftell f"
  shows "kv_parse_buffer_check_key cfg str [] =
           (case after_blanks cfg str of
              [] \<Rightarrow> None
            | d # v \<Rightarrow> if is_delimiter d then Some v else None)
         \<and> (case after_blanks cfg (pending f) of
              [] \<Rightarrow> \<not> fst (kv_parse_check_key cfg f [])
                     \<and> ftell (snd (kv_parse_check_key cfg f [])) = ftell f
            | d # v \<Rightarrow>
                if is_delimiter d
                then fst (kv_parse_check_key cfg f [])
                     \<and> pending (snd (kv_parse_check_key cfg f [])) = v
                else \<not> fst (kv_parse_check_key cfg f [])
                     \<and> ftell (snd (kv_parse_check_key cfg f [])) = ftell f)"
proof
  show "kv_parse_buffer_check_key cfg str [] =
          (case after_blanks cfg str of
             [] \<Rightarrow> None
           | d # v \<Rightarrow> if is_delimiter d then Some v else None)"
    by (rule check_key_empty_buffer)
next
  from check_key_stream_general [of cfg f "[]" "after_blanks cfg (pending f)"]
  obtain ch f' where
    s: "sees ch f' (after_blanks cfg (pending f))" and
    r: "kv_parse_check_key cfg f [] =
          (if is_delimiter ch then (True, f') else (False, fseek f' (ftell f)))"
    by (auto simp: after_blanks_idem)
  show "case after_blanks cfg (pending f) of
          [] \<Rightarrow> \<not> fst (kv_parse_check_key cfg f [])
                 \<and> ftell (snd (kv_parse_check_key cfg f [])) = ftell f
        | d # v \<Rightarrow>
            if is_delimiter d
            then fst (kv_parse_check_key cfg f [])
                 \<and> pending (snd (kv_parse_check_key cfg f [])) = v
            else \<not> fst (kv_parse_check_key cfg f [])
                 \<and> ftell (snd (kv_parse_check_key cfg f [])) = ftell f"
  proof (cases "after_blanks cfg (pending f)")
    case Nil
    with s have "ch = EOF_char" by (simp add: sees_Nil)
    with r Nil assms show ?thesis by (simp add: is_delimiter_def ftell_fseek)
  next
    case (Cons d v)
    with s have "ch = d" "pending f' = v" using sees_Cons [of ch f' d v] by simp_all
    with r Cons assms show ?thesis by (simp add: ftell_fseek)
  qed
qed

theorem check_key_empty_key_witness:
  "kv_parse_buffer_check_key \<lparr>whitespace_skip = True, quoted_strings = True\<rparr> '' : v'' []
     = Some '' v''
   \<and> fst (kv_parse_check_key \<lparr>whitespace_skip = True, quoted_strings = True\<rparr>
            \<lparr>content = '' : v'', offset = 0, pushed = None\<rparr> [])
   \<and> pending (snd (kv_parse_check_key \<lparr>whitespace_skip = True, quoted_strings = True\<rparr>
                     \<lparr>content = '' : v'', offset = 0, pushed = None\<rparr> [])) = '' v''"
  using check_key_empty_key [of "\<lparr>content = '' : v'', offset = 0, pushed = None\<rparr>"
          "\<lparr>whitespace_skip = True, quoted_strings = True\<rparr>" "'' : v''"]
  by (simp add: ftell_def pending_def after_blanks_def is_blank_def is_delimiter_def)



section \<open>Duplicate keys\<close>

text \<open>
  C5. The claim: on every input with several lines that share a key, the caller's
  loop over \<^verbatim>\<open>next_line\<close>, \<^verbatim>\<open>check_key\<close> and \<^verbatim>\<open>get_value\<close> returns the value of the
  first matching line; the lines \<^verbatim>\<open>x=1\<close>, \<^verbatim>\<open>x=2\<close>, \<^verbatim>\<open>x=3\<close> with the key \<^verbatim>\<open>x\<close> yield
  the string \<^verbatim>\<open>1\<close> of length 1.
  The loop \<^verbatim>\<open>kv_parse\<close> over the stream engine does not, when a byte \<open>0xFF\<close> stands
  before the first matching line. On a file of four lines, \<^verbatim>\<open>#\<close> followed by the
  byte \<open>0xFF\<close>, then \<^verbatim>\<open>x=1\<close>, \<^verbatim>\<open>x=2\<close>, \<^verbatim>\<open>x=3\<close>, with the key \<^verbatim>\<open>x\<close>:
  \<^verbatim>\<open>kv_parse_check_key\<close> fails on the first line and seeks back to its start; the
  next call of \<^verbatim>\<open>kv_parse_next_line\<close> reads \<^verbatim>\<open>#\<close>, then reads the byte \<open>0xFF\<close> into
  its \<^verbatim>\<open>char\<close>, finds it equal to \<^verbatim>\<open>EOF\<close> and returns false. The loop ends: \<^verbatim>\<open>kv_parse\<close>
  returns 0, with the destination as the caller had it and the stream after that
  byte. The loop \<^verbatim>\<open>kv_parse_buffer\<close> over the buffer engine, on the same bytes, returns
  the string \<^verbatim>\<open>1\<close> of length 1. This is the defect of C3, met through the caller's
  loop.
\<close>

theorem stream_loop_stops_at_byte_255:
  "kv_parse \<lparr>whitespace_skip = ws, quoted_strings = qs\<rparr>
       \<lparr>content = ''#'' @ [CHR 0xFF, LF] @ ''x=1'' @ [LF] @ ''x=2'' @ [LF] @ ''x=3'',
        offset = 0, pushed = None\<rparr> ''x'' [x0, x1, x2, x3] 4
     = Done ((0, [x0, x1, x2, x3]),
             \<lparr>content = ''#'' @ [CHR 0xFF, LF] @ ''x=1'' @ [LF] @ ''x=2'' @ [LF] @ ''x=3'',
              offset = 2, pushed = None\<rparr>)
   \<and> kv_parse_buffer \<lparr>whitespace_skip = ws, quoted_strings = qs\<rparr>
       (''#'' @ [CHR 0xFF, LF] @ ''x=1'' @ [LF] @ ''x=2'' @ [LF] @ ''x=3'') ''x''
       [x0, x1, x2, x3] 4
     = Done (1, [CHR ''1'', NUL, x2, x3])"
  by (cases ws; cases qs)
     (simp_all add: loop_defs buffer_defs stdio_defs stream_defs memory_defs)

text \<open>
  That byte apart, both loops return the value of the first matching line.
  The loop over the buffer engine does so on every input: where \<open>l\<close> is the first
  line start whose text holds the key, followed by the text \<open>v\<close> after the
  delimiter, the loop returns what \<^verbatim>\<open>kv_parse_buffer_get_value\<close> extracts at \<open>v\<close>,
  whatever the later lines hold (a C string holds no byte \<open>0x00\<close>, hence the
  hypothesis on the key).
\<close>

theorem buffer_loop_returns_first_match:
  assumes "NUL \<notin> set key"
    and "line_starts input = before @ l # after"
    and "\<forall>b\<in>set before. key_on_line cfg key b = None"
    and "key_on_line cfg key l = Some v"
  shows "kv_parse_buffer cfg input key value value_max
           = kv_parse_buffer_get_value cfg v value value_max"
proof -
  note k = check_key_buffer_text [OF assms(1), of cfg]
  show ?thesis
  proof (cases before)
    case Nil
    with assms(2) have "l = input" by (simp add: line_starts_def)
    with assms(4) show ?thesis
      by (simp add: kv_parse_buffer_def kv_parse_buffer_from.simps [of cfg 0 input]
            kv_parse_buffer_next_line_def k)
  next
    case (Cons b bs)
    with assms(2) have b: "b = input" and l: "later_line_starts input = bs @ l # after"
      by (auto simp: line_starts_def)
    from Cons assms(3) b have none: "kv_parse_buffer_check_key cfg input key = None"
      and rest: "\<forall>b\<in>set bs. kv_parse_buffer_check_key cfg b key = None"
      by (simp_all add: k)
    have "kv_parse_buffer_check_key cfg l key = Some v" using assms(4) by (simp add: k)
    then have "kv_parse_buffer_from cfg (Suc 0) input key value value_max
            = kv_parse_buffer_get_value cfg v value value_max"
      by (intro kv_parse_buffer_from_later [OF _ l rest]) simp_all
    with none show ?thesis
      by (simp add: kv_parse_buffer_def kv_parse_buffer_from.simps [of cfg 0 input]
            kv_parse_buffer_next_line_def)
  qed
qed

text \<open>
  For instance on the lines \<^verbatim>\<open>a=0\<close>, \<^verbatim>\<open>x=1\<close>, \<^verbatim>\<open>x=2\<close> with the key \<^verbatim>\<open>x\<close>: the first
  line does not hold the key, the second does, and the loop returns the string
  \<^verbatim>\<open>1\<close> of length 1.
\<close>

theorem buffer_loop_returns_first_match_example:
  "kv_parse_buffer \<lparr>whitespace_skip = True, quoted_strings = True\<rparr>
     (''a=0'' @ [LF] @ ''x=1'' @ [LF] @ ''x=2'') ''x'' ''####'' 4
     = Done (1, ''1'' @ [NUL] @ ''##'')"
  using buffer_loop_returns_first_match
          [of "''x''" "''a=0'' @ [LF] @ ''x=1'' @ [LF] @ ''x=2''"
              "[''a=0'' @ [LF] @ ''x=1'' @ [LF] @ ''x=2'']" "''x=1'' @ [LF] @ ''x=2''"
              "[''x=2'']" "\<lparr>whitespace_skip = True, quoted_strings = True\<rparr>"
              "''1'' @ [LF] @ ''x=2''" "''####''" 4]
  by (simp add: line_starts_def key_on_line_def after_blanks_def is_blank_def is_delimiter_def
        buffer_defs memory_defs)

text \<open>
  On a file that holds neither the byte \<open>0x00\<close> nor the byte \<open>0xFF\<close>, the loop over
  the stream engine returns the length and the destination that the loop over the
  buffer engine returns on the bytes of the file, from whatever position the stream
  is in when \<^verbatim>\<open>kv_parse\<close> is called.
\<close>

theorem stream_loop_agrees_without_bytes_0_and_255:
  assumes "NUL \<notin> set (content f)" and "EOF_char \<notin> set (content f)"
  shows "result_of (kv_parse cfg f key value value_max)
           = kv_parse_buffer cfg (content f) key value value_max"
proof -
  have "consistent (rewind f)" by (simp add: consistent_def rewind_def)
  moreover have p: "pending (rewind f) = content f" by (simp add: pending_def rewind_def)
  moreover have "plain (pending (rewind f))" using assms p by (simp add: plain_def)
  ultimately show ?thesis
    using kv_parse_from_agree [of "rewind f" cfg 0 key "value" value_max]
    by (simp add: kv_parse_def kv_parse_buffer_def)
qed

text \<open>
  The example of the claim, in both loops, under either setting of the two
  switches and on every destination of three bytes or more: the result is the
  string \<^verbatim>\<open>1\<close> with its terminator, of length 1, and the rest of the destination
  is as it was.
\<close>

theorem first_match_example:
  assumes "length dest = C" and "3 \<le> C"
  shows "kv_parse_buffer \<lparr>whitespace_skip = ws, quoted_strings = qs\<rparr>
             (''x=1'' @ [LF] @ ''x=2'' @ [LF] @ ''x=3'') ''x'' dest C
           = Done (1, CHR ''1'' # NUL # drop 2 dest)
       \<and> result_of
             (kv_parse \<lparr>whitespace_skip = ws, quoted_strings = qs\<rparr>
                \<lparr>content = ''x=1'' @ [LF] @ ''x=2'' @ [LF] @ ''x=3'', offset = n, pushed = p\<rparr>
                ''x'' dest C)
           = Done (1, CHR ''1'' # NUL # drop 2 dest)"
proof -
  have "3 \<le> length dest" using assms by simp
  then obtain x0 x1 x2 rest where d: "dest = x0 # x1 # x2 # rest"
    by (auto simp: eval_nat_numeral Suc_le_length_iff)
  have C: "C = Suc (Suc (Suc (length rest)))" using assms(1) d by simp
  have b: "kv_parse_buffer \<lparr>whitespace_skip = ws, quoted_strings = qs\<rparr>
             (''x=1'' @ [LF] @ ''x=2'' @ [LF] @ ''x=3'') ''x'' dest C
           = Done (1, CHR ''1'' # NUL # drop 2 dest)"
    unfolding d C
    by (cases ws; cases qs) (simp_all add: loop_defs buffer_defs memory_defs)
  from stream_loop_agrees_without_bytes_0_and_255
         [of "\<lparr>content = ''x=1'' @ [LF] @ ''x=2'' @ [LF] @ ''x=3'', offset = n, pushed = p\<rparr>"
             "\<lparr>whitespace_skip = ws, quoted_strings = qs\<rparr>" "''x''" dest C] b
  show ?thesis by simp
qed

section \<open>Failed extractions\<close>

text \<open>
  C2. The claim: after every failing \<^verbatim>\<open>get_value\<close> or \<^verbatim>\<open>check_section\<close> call the first
  byte of the destination is zero and the cursor is where it was; in particular
  \<^verbatim>\<open>check_section\<close> on a line whose first byte is not \<^verbatim>\<open>[\<close> leaves the first byte of
  the destination zero.
  That last part does not hold: on such a line both engines return before they
  touch the destination, so whatever the caller had there stays. Below, the
  destination holds \<^verbatim>\<open>old\<close> before and after the call.
\<close>

theorem check_section_without_bracket_keeps_destination:
  "kv_parse_buffer_check_section ''k=v'' ''old'' 3 = Done (0, ''old'')
   \<and> kv_parse_check_section \<lparr>content = ''k=v'', offset = 0, pushed = None\<rparr> ''old'' 3
       = Done ((0, ''old''), \<lparr>content = ''k=v'', offset = 0, pushed = None\<rparr>)
   \<and> take 1 ''old'' \<noteq> [NUL]"
  by (simp add: memory_defs buffer_defs stdio_defs stream_defs)

text \<open>
  C2, amended. What the code does: a \<^verbatim>\<open>get_value\<close> call that returns length 0 leaves
  the first byte of the destination zero, and when its copy loop has run out of
  capacity the call returns 0 with the stream position as before the call; a
  \<^verbatim>\<open>check_section\<close> call on a line that starts with \<^verbatim>\<open>[\<close> and returns 0 leaves the
  first byte zero, and every \<^verbatim>\<open>kv_parse_check_section\<close> call leaves the stream
  position as before; on a line that does not start with \<^verbatim>\<open>[\<close> the call returns 0,
  restores the stream position and leaves the destination as it was. (The buffer
  engine takes its pointer by value: the caller's cursor cannot change.)
\<close>

theorem failed_extraction_outcome:
  assumes "0 \<le> ftell f"
  shows "(kv_parse_buffer_get_value cfg str dest C = Done (0, d) \<longrightarrow> take 1 d = [NUL])
       \<and> (kv_parse_get_value cfg f dest C = Done ((0, d), g) \<longrightarrow> take 1 d = [NUL])
       \<and> (buffer_value_scan cfg str dest C = Done (Exhausted v) \<and> dest \<noteq> [] \<longrightarrow>
            (\<exists>d'. kv_parse_buffer_get_value cfg str dest C = Done (0, d') \<and> take 1 d' = [NUL]))
       \<and> (stream_value_scan cfg f dest C = Done (Exhausted v, f3) \<and> dest \<noteq> [] \<longrightarrow>
            (\<exists>d' g'. kv_parse_get_value cfg f dest C = Done ((0, d'), g') \<and> take 1 d' = [NUL]
               \<and> ftell g' = ftell f \<and> pushed g' = None))
       \<and> (deref str = CHR ''['' \<and> kv_parse_buffer_check_section str dest C = Done (0, d) \<longrightarrow>
            take 1 d = [NUL])
       \<and> (fst (getc f) = Some (CHR ''['') \<and> kv_parse_check_section f dest C = Done ((0, d), g) \<longrightarrow>
            take 1 d = [NUL])
       \<and> (kv_parse_check_section f dest C = Done (r, g) \<longrightarrow> ftell g = ftell f \<and> pushed g = None)
       \<and> (deref str \<noteq> CHR ''['' \<longrightarrow> kv_parse_buffer_check_section str dest C = Done (0, dest))
       \<and> (fst (getc f) \<noteq> Some (CHR ''['') \<longrightarrow>
            (\<exists>g'. kv_parse_check_section f dest C = Done ((0, dest), g') \<and> ftell g' = ftell f
               \<and> pushed g' = None))"
proof (intro conjI impI)
  show "take 1 d = [NUL]" if "kv_parse_buffer_get_value cfg str dest C = Done (0, d)"
    using buffer_get_value_zero [OF that] by simp
  show "take 1 d = [NUL]" if "kv_parse_get_value cfg f dest C = Done ((0, d), g)"
    using stream_get_value_zero [OF that] by simp
  show "\<exists>d'. kv_parse_buffer_get_value cfg str dest C = Done (0, d') \<and> take 1 d' = [NUL]"
    if "buffer_value_scan cfg str dest C = Done (Exhausted v) \<and> dest \<noteq> []"
    using buffer_get_value_exhausted [of cfg str dest C v] that by simp
  show "\<exists>d' g'. kv_parse_get_value cfg f dest C = Done ((0, d'), g') \<and> take 1 d' = [NUL]
          \<and> ftell g' = ftell f \<and> pushed g' = None"
    if "stream_value_scan cfg f dest C = Done (Exhausted v, f3) \<and> dest \<noteq> []"
    using stream_get_value_exhausted [of cfg f dest C v f3] that assms by simp
  show "take 1 d = [NUL]"
    if "deref str = CHR ''['' \<and> kv_parse_buffer_check_section str dest C = Done (0, d)"
    using buffer_check_section_zero [of str dest C d] that by simp
  show "take 1 d = [NUL]"
    if "fst (getc f) = Some (CHR ''['') \<and> kv_parse_check_section f dest C = Done ((0, d), g)"
    using stream_check_section_zero [of f dest C d g] that by simp
  show "ftell g = ftell f" "pushed g = None" if "kv_parse_check_section f dest C = Done (r, g)"
    using stream_check_section_restores [OF that assms] by simp_all
  show "kv_parse_buffer_check_section str dest C = Done (0, dest)" if "deref str \<noteq> CHR ''[''"
    using that by (simp add: kv_parse_buffer_check_section_def)
  show "\<exists>g'. kv_parse_check_section f dest C = Done ((0, dest), g') \<and> ftell g' = ftell f
          \<and> pushed g' = None"
    if "fst (getc f) \<noteq> Some (CHR ''['')"
    using stream_check_section_other [OF that assms] .
qed

theorem failed_extraction_outcome_witness:
  "(\<exists>d'. kv_parse_buffer_get_value \<lparr>whitespace_skip = True, quoted_strings = True\<rparr> ''[abc''
            ''zzzz'' 4 = Done (0, d') \<and> take 1 d' = [NUL])
   \<and> (\<exists>d' g'. kv_parse_get_value \<lparr>whitespace_skip = True, quoted_strings = True\<rparr>
            \<lparr>content = ''[abc'', offset = 0, pushed = None\<rparr> ''zzzz'' 4 = Done ((0, d'), g')
            \<and> take 1 d' = [NUL]
            \<and> ftell g' = ftell \<lparr>content = ''[abc'', offset = 0, pushed = None\<rparr>
            \<and> pushed g' = None)"
  using failed_extraction_outcome
          [where f = "\<lparr>content = ''[abc'', offset = 0, pushed = None\<rparr>"
             and cfg = "\<lparr>whitespace_skip = True, quoted_strings = True\<rparr>"
             and str = "''[abc''" and dest = "''zzzz''" and C = 4
             and d = "[NUL, CHR ''b'', CHR ''c'', CHR ''z'']"
             and g = "\<lparr>content = ''[abc'', offset = 0, pushed = None\<rparr>"
             and v = "[CHR ''['', CHR ''a'', CHR ''b'', CHR ''z'']"
             and ?f3.0 = "\<lparr>content = ''[abc'', offset = 4, pushed = None\<rparr>"
             and r = "(0, [NUL, CHR ''b'', CHR ''c'', CHR ''z''])"]
  by (simp add: memory_defs buffer_defs stdio_defs stream_defs)

section \<open>Writes into the destination\<close>

text \<open>
  C4. The claim: for every capacity \<open>C\<close>, including \<open>C = 0\<close>, \<^verbatim>\<open>get_value\<close> and
  \<^verbatim>\<open>check_section\<close> never write outside the indices \<open>0..C-1\<close>.
  At \<open>C = 0\<close> the bound \<^verbatim>\<open>value_max - 1\<close> wraps around to \<^verbatim>\<open>SIZE_MAX\<close>, the loop is
  entered, and all four functions write index 0 of a destination that has no bytes.
\<close>

theorem zero_capacity_writes_outside:
  "kv_parse_buffer_get_value \<lparr>whitespace_skip = True, quoted_strings = True\<rparr> ''v'' [] 0
     = Fault (BadWrite 0)
   \<and> kv_parse_get_value \<lparr>whitespace_skip = True, quoted_strings = True\<rparr>
         \<lparr>content = ''k=v'', offset = 2, pushed = None\<rparr> [] 0
     = Fault (BadWrite 0)
   \<and> kv_parse_buffer_check_section ''[s]'' [] 0 = Fault (BadWrite 0)
   \<and> kv_parse_check_section \<lparr>content = ''[s]'', offset = 0, pushed = None\<rparr> [] 0
     = Fault (BadWrite 0)"
  by (simp add: memory_defs buffer_defs stdio_defs stream_defs SIZE_MAX_pos)

text \<open>
  C4, amended. For every capacity \<open>C \<ge> 1\<close> (the header calls the size the maximum
  size of the buffer including the terminator): \<^verbatim>\<open>get_value\<close>, in either engine,
  makes no access outside \<open>0..C-1\<close> and returns a length \<open>n \<le> C - 1\<close> with the
  terminator at index \<open>n\<close>; \<^verbatim>\<open>check_section\<close>, in either engine, makes no access
  outside \<open>0..C-1\<close> and returns a length \<open>n \<le> C - 1\<close> on every line whose text
  between the first byte and the end of the line holds a byte other than a blank.
  Nothing is said about the lines on which that text is empty or all blanks.
\<close>

theorem destination_accesses_in_bounds:
  assumes "1 \<le> C" and "length dest = C"
  shows "(\<exists>n d. kv_parse_buffer_get_value cfg str dest C = Done (n, d) \<and> length d = C
            \<and> n \<le> C - 1 \<and> d ! n = NUL)
       \<and> (\<exists>n d f'. kv_parse_get_value cfg f dest C = Done ((n, d), f') \<and> length d = C
            \<and> n \<le> C - 1 \<and> d ! n = NUL)
       \<and> ((\<exists>c\<in>set (takeWhile (\<lambda>c. c \<noteq> NUL \<and> c \<noteq> CR \<and> c \<noteq> LF) (tl str)). \<not> is_blank c) \<longrightarrow>
            (\<exists>n d. kv_parse_buffer_check_section str dest C = Done (n, d) \<and> length d = C
               \<and> n \<le> C - 1))
       \<and> ((\<exists>c\<in>set (takeWhile (\<lambda>c. c \<noteq> CR \<and> c \<noteq> LF) (tl (pending f))). \<not> is_blank c) \<longrightarrow>
            (\<exists>n d f'. kv_parse_check_section f dest C = Done ((n, d), f') \<and> length d = C
               \<and> n \<le> C - 1))"
  using buffer_get_value_in_bounds [OF assms, of cfg str]
    stream_get_value_in_bounds [OF assms, of cfg f]
    buffer_check_section_in_bounds [OF assms, of str]
    stream_check_section_in_bounds [OF assms, of f]
  by blast

theorem destination_accesses_in_bounds_witness:
  "kv_parse_buffer_get_value \<lparr>whitespace_skip = True, quoted_strings = True\<rparr> ''[ab]''
       ''########'' 8
     = Done (4, ''[ab]'' @ [NUL] @ ''###'')
   \<and> kv_parse_get_value \<lparr>whitespace_skip = True, quoted_strings = True\<rparr>
       \<lparr>content = ''[ab]'', offset = 0, pushed = None\<rparr> ''########'' 8
     = Done ((4, ''[ab]'' @ [NUL] @ ''###''), \<lparr>content = ''[ab]'', offset = 0, pushed = None\<rparr>)
   \<and> kv_parse_buffer_check_section ''[ab]'' ''########'' 8
     = Done (2, ''ab'' @ [NUL, NUL] @ ''####'')
   \<and> kv_parse_check_section \<lparr>content = ''[ab]'', offset = 0, pushed = None\<rparr> ''########'' 8
     = Done ((2, ''ab'' @ [NUL, NUL] @ ''####''),
             \<lparr>content = ''[ab]'', offset = 0, pushed = None\<rparr>)"
  using destination_accesses_in_bounds
          [of 8 "''########''" "\<lparr>whitespace_skip = True, quoted_strings = True\<rparr>" "''[ab]''"
              "\<lparr>content = ''[ab]'', offset = 0, pushed = None\<rparr>"]
  by (simp add: memory_defs buffer_defs stdio_defs stream_defs)

section \<open>Quoted values\<close>

text \<open>
  C6. With quoted strings compiled in (and whitespace skipping either way), on
  every destination, whatever it holds: the key \<^verbatim>\<open>path\<close> on the line
  \<^verbatim>\<open>path="/home/user=data"\<close> gives \<^verbatim>\<open>/home/user=data\<close> with its terminator, length 15,
  without the quotes; the line without the closing quote gives the same; and the
  line \<^verbatim>\<open>path="/home/\"user=data"\<close> gives \<^verbatim>\<open>/home/"user=data\<close> with its terminator,
  length 16. The bytes of the destination after the terminator are as they were.
  The capacity has to let the copy loop reach the closing quote or the end of the
  line: 17 bytes or more for the first two lines, 18 or more for the third.
  The buffer engine is run through the caller's loop, the stream engine through
  \<^verbatim>\<open>check_key\<close>, which leaves the stream after the delimiter, and \<^verbatim>\<open>get_value\<close> from
  there, which leaves the stream at the start of the value.
\<close>

theorem quoted_value_examples:
  assumes "length dest = C"
  shows
  "(17 \<le> C \<longrightarrow>
      kv_parse_buffer \<lparr>whitespace_skip = ws, quoted_strings = True\<rparr>
          (''path='' @ [DQUOTE] @ ''/home/user=data'' @ [DQUOTE]) ''path'' dest C
        = Done (15, ''/home/user=data'' @ NUL # drop 16 dest)
      \<and> kv_parse_buffer \<lparr>whitespace_skip = ws, quoted_strings = True\<rparr>
          (''path='' @ [DQUOTE] @ ''/home/user=data'') ''path'' dest C
        = Done (15, ''/home/user=data'' @ NUL # drop 16 dest)
      \<and> kv_parse_get_value \<lparr>whitespace_skip = ws, quoted_strings = True\<rparr>
          \<lparr>content = ''path='' @ [DQUOTE] @ ''/home/user=data'' @ [DQUOTE], offset = 5,
           pushed = None\<rparr> dest C
        = Done ((15, ''/home/user=data'' @ NUL # drop 16 dest),
                \<lparr>content = ''path='' @ [DQUOTE] @ ''/home/user=data'' @ [DQUOTE], offset = 5,
                 pushed = None\<rparr>)
      \<and> kv_parse_get_value \<lparr>whitespace_skip = ws, quoted_strings = True\<rparr>
          \<lparr>content = ''path='' @ [DQUOTE] @ ''/home/user=data'', offset = 5, pushed = None\<rparr>
          dest C
        = Done ((15, ''/home/user=data'' @ NUL # drop 16 dest),
                \<lparr>content = ''path='' @ [DQUOTE] @ ''/home/user=data'', offset = 5,
                 pushed = None\<rparr>))
   \<and> (18 \<le> C \<longrightarrow>
      kv_parse_buffer \<lparr>whitespace_skip = ws, quoted_strings = True\<rparr>
          (''path='' @ [DQUOTE] @ ''/home/'' @ [BACKSLASH, DQUOTE] @ ''user=data'' @ [DQUOTE])
          ''path'' dest C
        = Done (16, ''/home/'' @ [DQUOTE] @ ''user=data'' @ NUL # drop 17 dest)
      \<and> kv_parse_get_value \<lparr>whitespace_skip = ws, quoted_strings = True\<rparr>
          \<lparr>content = ''path='' @ [DQUOTE] @ ''/home/'' @ [BACKSLASH, DQUOTE] @ ''user=data''
                       @ [DQUOTE],
           offset = 5, pushed = None\<rparr> dest C
        = Done ((16, ''/home/'' @ [DQUOTE] @ ''user=data'' @ NUL # drop 17 dest),
                \<lparr>content = ''path='' @ [DQUOTE] @ ''/home/'' @ [BACKSLASH, DQUOTE]
                             @ ''user=data'' @ [DQUOTE],
                 offset = 5, pushed = None\<rparr>))
   \<and> kv_parse_check_key \<lparr>whitespace_skip = ws, quoted_strings = True\<rparr>
       \<lparr>content = ''path='' @ [DQUOTE] @ ''/home/user=data'' @ [DQUOTE], offset = 0,
        pushed = None\<rparr> ''path''
     = (True, \<lparr>content = ''path='' @ [DQUOTE] @ ''/home/user=data'' @ [DQUOTE], offset = 5,
               pushed = None\<rparr>)
   \<and> kv_parse_check_key \<lparr>whitespace_skip = ws, quoted_strings = True\<rparr>
       \<lparr>content = ''path='' @ [DQUOTE] @ ''/home/user=data'', offset = 0, pushed = None\<rparr>
       ''path''
     = (True, \<lparr>content = ''path='' @ [DQUOTE] @ ''/home/user=data'', offset = 5,
               pushed = None\<rparr>)
   \<and> kv_parse_check_key \<lparr>whitespace_skip = ws, quoted_strings = True\<rparr>
       \<lparr>content = ''path='' @ [DQUOTE] @ ''/home/'' @ [BACKSLASH, DQUOTE] @ ''user=data''
                    @ [DQUOTE],
        offset = 0, pushed = None\<rparr> ''path''
     = (True, \<lparr>content = ''path='' @ [DQUOTE] @ ''/home/'' @ [BACKSLASH, DQUOTE]
                          @ ''user=data'' @ [DQUOTE],
               offset = 5, pushed = None\<rparr>)"
  (is "(_ \<longrightarrow> ?short) \<and> (_ \<longrightarrow> ?long) \<and> ?keys")
proof -
  have short: ?short if "17 \<le> C"
  proof -
    from that have "17 \<le> length dest" using assms by simp
    then obtain x0 x1 x2 x3 x4 x5 x6 x7 x8 x9 x10 x11 x12 x13 x14 x15 x16 rest
      where d: "dest = x0 # x1 # x2 # x3 # x4 # x5 # x6 # x7 # x8 # x9 # x10 # x11 # x12 # x13
                    # x14 # x15 # x16 # rest"
      by (rule destination_17)
    have C: "C = Suc (Suc (Suc (Suc (Suc (Suc (Suc (Suc (Suc (Suc (Suc (Suc (Suc (Suc (Suc (Suc
                   (Suc (length rest)))))))))))))))))"
      using assms d by simp
    show ?thesis
      unfolding d C
      by (cases ws)
         (simp_all add: kv_parse_buffer_def kv_parse_buffer_from.simps buffer_defs stdio_defs
            stream_defs memory_defs eval_nat_numeral)
  qed
  have long: ?long if "18 \<le> C"
  proof -
    from that have "17 \<le> length dest" using assms by simp
    then obtain x0 x1 x2 x3 x4 x5 x6 x7 x8 x9 x10 x11 x12 x13 x14 x15 x16 rest
      where d0: "dest = x0 # x1 # x2 # x3 # x4 # x5 # x6 # x7 # x8 # x9 # x10 # x11 # x12 # x13
                    # x14 # x15 # x16 # rest"
      by (rule destination_17)
    with that assms obtain x17 rest' where r: "rest = x17 # rest'"
      by (cases rest) auto
    note d = d0 [unfolded r]
    have C: "C = Suc (Suc (Suc (Suc (Suc (Suc (Suc (Suc (Suc (Suc (Suc (Suc (Suc (Suc (Suc (Suc
                   (Suc (Suc (length rest'))))))))))))))))))"
      using assms d by simp
    show ?thesis
      unfolding d C
      by (cases ws)
         (simp_all add: kv_parse_buffer_def kv_parse_buffer_from.simps buffer_defs stdio_defs
            stream_defs memory_defs eval_nat_numeral)
  qed
  have keys: ?keys
    by (cases ws) (simp_all add: stdio_defs stream_defs)
  show ?thesis
  proof (rule conjI [OF _ conjI])
    show "17 \<le> C \<longrightarrow> ?short" by (rule impI) (rule short)
    show "18 \<le> C \<longrightarrow> ?long" by (rule impI) (rule long)
    show ?keys by (rule keys)
  qed
qed

theorem quoted_value_examples_witness:
  "kv_parse_buffer \<lparr>whitespace_skip = True, quoted_strings = True\<rparr>
       (''path='' @ [DQUOTE] @ ''/home/user=data'' @ [DQUOTE]) ''path''
       ''####################'' 20
     = Done (15, ''/home/user=data'' @ [NUL] @ ''####'')
   \<and> kv_parse_buffer \<lparr>whitespace_skip = True, quoted_strings = True\<rparr>
       (''path='' @ [DQUOTE] @ ''/home/user=data'') ''path'' ''####################'' 20
     = Done (15, ''/home/user=data'' @ [NUL] @ ''####'')
   \<and> kv_parse_buffer \<lparr>whitespace_skip = True, quoted_strings = True\<rparr>
       (''path='' @ [DQUOTE] @ ''/home/'' @ [BACKSLASH, DQUOTE] @ ''user=data'' @ [DQUOTE])
       ''path'' ''####################'' 20
     = Done (16, ''/home/'' @ [DQUOTE] @ ''user=data'' @ [NUL] @ ''###'')
   \<and> kv_parse_get_value \<lparr>whitespace_skip = True, quoted_strings = True\<rparr>
       \<lparr>content = ''path='' @ [DQUOTE] @ ''/home/user=data'' @ [DQUOTE], offset = 5,
        pushed = None\<rparr> ''####################'' 20
     = Done ((15, ''/home/user=data'' @ [NUL] @ ''####''),
             \<lparr>content = ''path='' @ [DQUOTE] @ ''/home/user=data'' @ [DQUOTE], offset = 5,
              pushed = None\<rparr>)
   \<and> kv_parse_get_value \<lparr>whitespace_skip = True, quoted_strings = True\<rparr>
       \<lparr>content = ''path='' @ [DQUOTE] @ ''/home/user=data'', offset = 5, pushed = None\<rparr>
       ''####################'' 20
     = Done ((15, ''/home/user=data'' @ [NUL] @ ''####''),
             \<lparr>content = ''path='' @ [DQUOTE] @ ''/home/user=data'', offset = 5,
              pushed = None\<rparr>)
   \<and> kv_parse_get_value \<lparr>whitespace_skip = True, quoted_strings = True\<rparr>
       \<lparr>content = ''path='' @ [DQUOTE] @ ''/home/'' @ [BACKSLASH, DQUOTE] @ ''user=data''
                    @ [DQUOTE],
        offset = 5, pushed = None\<rparr> ''####################'' 20
     = Done ((16, ''/home/'' @ [DQUOTE] @ ''user=data'' @ [NUL] @ ''###''),
             \<lparr>content = ''path='' @ [DQUOTE] @ ''/home/'' @ [BACKSLASH, DQUOTE] @ ''user=data''
                          @ [DQUOTE],
              offset = 5, pushed = None\<rparr>)"
  using quoted_value_examples [of "''####################''" 20 True]
  by simp

end
